theory Spec2Isabelle
  imports Main "HOL-Library.Word"
begin

unbundle bit_operations_syntax

section \<open>Data model of netguard\_wfp.c\<close>

text \<open>
  The driver keeps one global \<^verbatim>\<open>NETGUARD_CONTEXT g_Context\<close>. Every function of the
  driver reads and writes it; here each function takes the context and returns the
  updated one. Machine integers are words of the C width, \<^verbatim>\<open>BOOLEAN\<close> is a byte
  (\<^verbatim>\<open>UCHAR\<close>) that C tests against zero. The two fixed arrays are lists of slots (256 and
  1024 of them) beside their counts, as in the C: slots at and beyond the count hold stale
  data that no loop of the driver reads. Loop counters are \<open>nat\<close>: each is bounded by a
  32-bit count, so it never wraps.
\<close>

type_synonym UCHAR = "8 word"
type_synonym BOOLEAN = "8 word"
type_synonym WCHAR = "16 word"
type_synonym UINT16 = "16 word"
type_synonym UINT32 = "32 word"
type_synonym UINT64 = "64 word"

definition TRUE :: BOOLEAN where
  "TRUE = 1"

definition FALSE :: BOOLEAN where
  "FALSE = 0"

definition MAX_PENDING_CONNECTIONS :: nat where
  "MAX_PENDING_CONNECTIONS = 256"

definition MAX_ALLOWED_APPS :: nat where
  "MAX_ALLOWED_APPS = 1024"

definition MAX_PATH_LENGTH :: nat where
  "MAX_PATH_LENGTH = 512"

record PENDING_CONNECTION =
  connectionId :: UINT64
  processId :: UINT32
  processPath :: "WCHAR list"
  remoteIp :: UINT32
  remotePort :: UINT16
  timestamp :: UINT64
  responded :: BOOLEAN
  allowed :: BOOLEAN

text \<open>The field \<^verbatim>\<open>processPath\<close> of \<^verbatim>\<open>ALLOWED_APP\<close> is \<open>app_processPath\<close> here.\<close>

record ALLOWED_APP =
  app_processPath :: "WCHAR list"
  blocked :: BOOLEAN

text \<open>
  Of \<^verbatim>\<open>NETGUARD_CONTEXT\<close> the handles of the filtering platform and the two spin locks are
  left out: each function below is one critical section, run to its end. \<open>PendingEvent\<close>
  is the signalled state of the notification event.
\<close>

record NETGUARD_CONTEXT =
  Enabled :: BOOLEAN
  PendingConnections :: "PENDING_CONNECTION list"
  PendingCount :: UINT32
  PendingEvent :: bool
  AllowedApps :: "ALLOWED_APP list"
  AllowedCount :: UINT32
  TotalConnections :: UINT64
  BlockedConnections :: UINT64
  AllowedConnections :: UINT64

datatype FWP_ACTION_TYPE = FWP_ACTION_PERMIT | FWP_ACTION_BLOCK

record FWPS_CLASSIFY_OUT0 =
  actionType :: FWP_ACTION_TYPE
  rights :: UINT32

definition FWPS_RIGHT_ACTION_WRITE :: UINT32 where
  "FWPS_RIGHT_ACTION_WRITE = 1"

text \<open>
  The incoming values of the layer \<^verbatim>\<open>ALE_AUTH_CONNECT_V4\<close> that the callout reads, and the
  metadata: a field is \<open>None\<close> when \<^verbatim>\<open>FWPS_IS_METADATA_FIELD_PRESENT\<close> is false for it (for
  the path, also when the pointer is null); the path is the blob's bytes, its \<^verbatim>\<open>size\<close>
  their number.
\<close>

record FWPS_INCOMING_VALUES0 =
  IP_REMOTE_ADDRESS :: UINT32
  IP_REMOTE_PORT :: UINT16

record FWPS_INCOMING_METADATA_VALUES0 =
  meta_processId :: "UINT64 option"
  meta_processPath :: "UCHAR list option"

section \<open>Bytes, wide strings\<close>

text \<open>Little-endian images of the integer types, and the reads that invert them.\<close>

definition bytes_UINT16 :: "UINT16 \<Rightarrow> UCHAR list" where
  "bytes_UINT16 w = [ucast w, ucast (drop_bit 8 w)]"

definition bytes_UINT32 :: "UINT32 \<Rightarrow> UCHAR list" where
  "bytes_UINT32 w = [ucast w, ucast (drop_bit 8 w), ucast (drop_bit 16 w), ucast (drop_bit 24 w)]"

definition bytes_UINT64 :: "UINT64 \<Rightarrow> UCHAR list" where
  "bytes_UINT64 w =
     [ucast w, ucast (drop_bit 8 w), ucast (drop_bit 16 w), ucast (drop_bit 24 w),
      ucast (drop_bit 32 w), ucast (drop_bit 40 w), ucast (drop_bit 48 w), ucast (drop_bit 56 w)]"

definition read_UINT64 :: "UCHAR list \<Rightarrow> UINT64" where
  "read_UINT64 bs = foldr (\<lambda>b acc. ucast b OR push_bit 8 acc) (take 8 bs) 0"

fun wchars_of_bytes :: "UCHAR list \<Rightarrow> WCHAR list" where
  "wchars_of_bytes (lo # hi # bs) = (ucast lo OR push_bit 8 (ucast hi)) # wchars_of_bytes bs"
| "wchars_of_bytes bs = []"

text \<open>
  The C runtime's \<^verbatim>\<open>_wcsicmp\<close> and \<^verbatim>\<open>wcsncpy\<close> on buffers of wide characters. A string
  ends at its first zero; the end of the buffer counts as one. Case is folded on the
  letters A to Z.
\<close>

definition towlower :: "WCHAR \<Rightarrow> WCHAR" where
  "towlower c = (if 0x41 \<le> c \<and> c \<le> 0x5A then c + 0x20 else c)"

fun wcsicmp :: "WCHAR list \<Rightarrow> WCHAR list \<Rightarrow> int" where
  "wcsicmp [] [] = 0"
| "wcsicmp [] (y # ys) = (if y = 0 then 0 else - 1)"
| "wcsicmp (x # xs) [] = (if x = 0 then 0 else 1)"
| "wcsicmp (x # xs) (y # ys) =
     (if towlower x \<noteq> towlower y then (if towlower x < towlower y then - 1 else 1)
      else if x = 0 then 0
      else wcsicmp xs ys)"

definition wcsncpy :: "WCHAR list \<Rightarrow> WCHAR list \<Rightarrow> nat \<Rightarrow> WCHAR list" where
  "wcsncpy dst src n =
     (let s = takeWhile (\<lambda>c. c \<noteq> 0) (take n src)
      in s @ replicate (n - length s) 0 @ drop n dst)"

text \<open>
  \<^verbatim>\<open>RtlMoveMemory\<close> between slots of one array: \<open>n\<close> slots from index \<open>src\<close> to index
  \<open>dst\<close>, the source read before anything is written.
\<close>

definition RtlMoveMemory_slots :: "'a list \<Rightarrow> nat \<Rightarrow> nat \<Rightarrow> nat \<Rightarrow> 'a list" where
  "RtlMoveMemory_slots xs dst src n = take dst xs @ take n (drop src xs) @ drop (dst + n) xs"

text \<open>
  The image of a \<^verbatim>\<open>PENDING_CONNECTION\<close> in memory (x64: the port is followed by six bytes
  of padding, the two flags by six more; padding is zero since the context is zeroed at
  \<^verbatim>\<open>DriverEntry\<close> and only fields are assigned).
\<close>

definition sizeof_PENDING_CONNECTION :: nat where
  "sizeof_PENDING_CONNECTION = 1064"

definition sizeof_ALLOWED_APP :: nat where
  "sizeof_ALLOWED_APP = 1026"

definition bytes_PENDING_CONNECTION :: "PENDING_CONNECTION \<Rightarrow> UCHAR list" where
  "bytes_PENDING_CONNECTION c =
     bytes_UINT64 (connectionId c) @ bytes_UINT32 (processId c) @
     concat (map bytes_UINT16 (processPath c)) @
     bytes_UINT32 (remoteIp c) @ bytes_UINT16 (remotePort c) @ replicate 6 0 @
     bytes_UINT64 (timestamp c) @ [responded c, allowed c] @ replicate 6 0"

definition ALLOWED_APP_of_bytes :: "UCHAR list \<Rightarrow> ALLOWED_APP" where
  "ALLOWED_APP_of_bytes bs =
     \<lparr>app_processPath = wchars_of_bytes (take (2 * MAX_PATH_LENGTH) bs),
      blocked = bs ! (2 * MAX_PATH_LENGTH)\<rparr>"

section \<open>The helpers\<close>

text \<open>
  \<^verbatim>\<open>IsAppInList\<close>: the first slot below \<open>AllowedCount\<close> whose path compares equal decides.
  The result is \<open>Some b\<close> when the C returns 1 with \<^verbatim>\<open>*isBlocked = b\<close>, and \<open>None\<close> when it
  returns 0.
\<close>

function IsAppInList_from :: "NETGUARD_CONTEXT \<Rightarrow> WCHAR list \<Rightarrow> nat \<Rightarrow> BOOLEAN option" where
  "IsAppInList_from g path i =
     (if i < unat (AllowedCount g) then
        (if wcsicmp (app_processPath (AllowedApps g ! i)) path = 0
         then Some (blocked (AllowedApps g ! i))
         else IsAppInList_from g path (Suc i))
      else None)"
  by pat_completeness auto
termination
  by (relation "measure (\<lambda>(g, path, i). unat (AllowedCount g) - i)") auto

declare IsAppInList_from.simps [simp del]

definition IsAppInList :: "NETGUARD_CONTEXT \<Rightarrow> WCHAR list \<Rightarrow> BOOLEAN option" where
  "IsAppInList g path = IsAppInList_from g path 0"

text \<open>
  \<^verbatim>\<open>AddPendingConnection\<close>; \<open>now\<close> is what \<^verbatim>\<open>KeQuerySystemTime\<close> stores. The result is the
  returned connection id (0 when the array is full) and the context.
\<close>

definition AddPendingConnection ::
  "NETGUARD_CONTEXT \<Rightarrow> UINT32 \<Rightarrow> WCHAR list \<Rightarrow> UINT32 \<Rightarrow> UINT16 \<Rightarrow> UINT64
     \<Rightarrow> UINT64 \<times> NETGUARD_CONTEXT" where
  "AddPendingConnection g pid path ip port now =
     (if unat (PendingCount g) < MAX_PENDING_CONNECTIONS then
        (let k = unat (PendingCount g);
             total = TotalConnections g + 1;
             slot = PendingConnections g ! k;
             conn = slot\<lparr>connectionId := total,
                        processId := pid,
                        processPath := wcsncpy (processPath slot) path (MAX_PATH_LENGTH - 1),
                        remoteIp := ip,
                        remotePort := port,
                        timestamp := now,
                        responded := FALSE,
                        allowed := FALSE\<rparr>
         in (connectionId conn,
             g\<lparr>TotalConnections := total,
               PendingConnections := (PendingConnections g)[k := conn],
               PendingCount := PendingCount g + 1,
               PendingEvent := True\<rparr>))
      else (0, g))"

section \<open>The classify callout\<close>

definition classify_processId :: "FWPS_INCOMING_METADATA_VALUES0 \<Rightarrow> UINT32" where
  "classify_processId inMetaValues =
     (case meta_processId inMetaValues of Some p \<Rightarrow> ucast p | None \<Rightarrow> 0)"

definition classify_processPath :: "FWPS_INCOMING_METADATA_VALUES0 \<Rightarrow> WCHAR list" where
  "classify_processPath inMetaValues =
     (case meta_processPath inMetaValues of
        Some blob \<Rightarrow>
          (if length blob > 0 then
             (let copyLen = min (length blob) ((MAX_PATH_LENGTH - 1) * 2)
              in wchars_of_bytes (take copyLen blob @ replicate (2 * MAX_PATH_LENGTH - copyLen) 0))
           else replicate MAX_PATH_LENGTH 0)
      | None \<Rightarrow> replicate MAX_PATH_LENGTH 0)"

definition block_action :: "FWPS_CLASSIFY_OUT0 \<Rightarrow> FWPS_CLASSIFY_OUT0" where
  "block_action out =
     out\<lparr>actionType := FWP_ACTION_BLOCK, rights := rights out AND NOT FWPS_RIGHT_ACTION_WRITE\<rparr>"

definition NetGuardClassifyFn ::
  "NETGUARD_CONTEXT \<Rightarrow> FWPS_INCOMING_VALUES0 \<Rightarrow> FWPS_INCOMING_METADATA_VALUES0 \<Rightarrow> UINT64
     \<Rightarrow> FWPS_CLASSIFY_OUT0 \<Rightarrow> FWPS_CLASSIFY_OUT0 \<times> NETGUARD_CONTEXT" where
  "NetGuardClassifyFn g inFixedValues inMetaValues now classifyOut =
     (let out = classifyOut\<lparr>actionType := FWP_ACTION_PERMIT\<rparr> in
      if Enabled g = 0 then (out, g)
      else
        (let pid = classify_processId inMetaValues;
             ip = IP_REMOTE_ADDRESS inFixedValues;
             port = IP_REMOTE_PORT inFixedValues;
             path = classify_processPath inMetaValues
         in if pid = 0 \<or> pid = 4 then (out, g)
            else
              (case IsAppInList g path of
                 Some isBlocked \<Rightarrow>
                   (if isBlocked \<noteq> 0
                    then (block_action out, g\<lparr>BlockedConnections := BlockedConnections g + 1\<rparr>)
                    else (out, g\<lparr>AllowedConnections := AllowedConnections g + 1\<rparr>))
               | None \<Rightarrow>
                   (case AddPendingConnection g pid path ip port now of
                      (connId, g') \<Rightarrow>
                        (if connId > 0 then (block_action out, g') else (out, g'))))))"

section \<open>The device control handler\<close>

text \<open>
  A request is buffered (\<^verbatim>\<open>METHOD_BUFFERED\<close>): the system buffer holds the caller's input
  bytes, \<^verbatim>\<open>InputBufferLength\<close> of them, and is null only when both lengths are zero. The
  result is the status, \<^verbatim>\<open>IoStatus.Information\<close> and the bytes handed back to the caller
  (the first \<^verbatim>\<open>Information\<close> bytes of the system buffer).
\<close>

datatype IOCTL =
    IOCTL_NETGUARD_GET_PENDING
  | IOCTL_NETGUARD_RESPOND
  | IOCTL_NETGUARD_ADD_ALLOWED
  | IOCTL_NETGUARD_REMOVE_ALLOWED
  | IOCTL_NETGUARD_ENABLE
  | IOCTL_NETGUARD_DISABLE
  | IOCTL_OTHER UINT32

record IRP =
  IoControlCode :: IOCTL
  InputBuffer :: "UCHAR list"
  OutputBufferLength :: UINT32

datatype NTSTATUS = STATUS_SUCCESS | STATUS_INVALID_DEVICE_REQUEST

record IO_STATUS =
  Status :: NTSTATUS
  Information :: nat
  OutputData :: "UCHAR list"

definition SystemBuffer_present :: "IRP \<Rightarrow> bool" where
  "SystemBuffer_present irp \<longleftrightarrow> length (InputBuffer irp) > 0 \<or> OutputBufferLength irp > 0"

text \<open>
  \<^verbatim>\<open>IOCTL_NETGUARD_RESPOND\<close>: the body of the loop for a slot \<open>i\<close> whose id matches (mark
  it, close the gap, decrement the count), and the loop from index \<open>i\<close> on.
\<close>

definition respond_slot :: "NETGUARD_CONTEXT \<Rightarrow> BOOLEAN \<Rightarrow> nat \<Rightarrow> NETGUARD_CONTEXT" where
  "respond_slot g a i =
     (let marked = (PendingConnections g)
            [i := (PendingConnections g ! i)\<lparr>responded := TRUE, allowed := a\<rparr>];
          moved = (if i < unat (PendingCount g) - 1
                   then RtlMoveMemory_slots marked i (i + 1) (unat (PendingCount g) - i - 1)
                   else marked)
      in g\<lparr>PendingConnections := moved, PendingCount := PendingCount g - 1\<rparr>)"

function respond_from :: "NETGUARD_CONTEXT \<Rightarrow> UINT64 \<Rightarrow> BOOLEAN \<Rightarrow> nat \<Rightarrow> NETGUARD_CONTEXT" where
  "respond_from g connId a i =
     (if i < unat (PendingCount g) then
        (if connectionId (PendingConnections g ! i) = connId
         then respond_slot g a i
         else respond_from g connId a (Suc i))
      else g)"
  by pat_completeness auto
termination
  by (relation "measure (\<lambda>(g, connId, a, i). unat (PendingCount g) - i)") auto

declare respond_from.simps [simp del]

definition NetGuardDeviceControl :: "NETGUARD_CONTEXT \<Rightarrow> IRP \<Rightarrow> IO_STATUS \<times> NETGUARD_CONTEXT" where
  "NetGuardDeviceControl g irp =
     (let inputLength = length (InputBuffer irp);
          outputLength = unat (OutputBufferLength irp);
          ok = \<lparr>Status = STATUS_SUCCESS, Information = 0, OutputData = []\<rparr>
      in case IoControlCode irp of
           IOCTL_NETGUARD_ENABLE \<Rightarrow> (ok, g\<lparr>Enabled := TRUE\<rparr>)
         | IOCTL_NETGUARD_DISABLE \<Rightarrow> (ok, g\<lparr>Enabled := FALSE\<rparr>)
         | IOCTL_NETGUARD_GET_PENDING \<Rightarrow>
             (let copySize = min outputLength (unat (PendingCount g) * sizeof_PENDING_CONNECTION)
              in if copySize > 0 \<and> SystemBuffer_present irp
                 then (\<lparr>Status = STATUS_SUCCESS, Information = copySize,
                        OutputData = take copySize
                          (concat (map bytes_PENDING_CONNECTION (PendingConnections g)))\<rparr>, g)
                 else (ok, g))
         | IOCTL_NETGUARD_RESPOND \<Rightarrow>
             (if inputLength \<ge> 8 + 1
              then (ok, respond_from g (read_UINT64 (InputBuffer irp)) (InputBuffer irp ! 8) 0)
              else (ok, g))
         | IOCTL_NETGUARD_ADD_ALLOWED \<Rightarrow>
             (if inputLength \<ge> sizeof_ALLOWED_APP then
                (if unat (AllowedCount g) < MAX_ALLOWED_APPS
                 then (ok, g\<lparr>AllowedApps := (AllowedApps g)
                                [unat (AllowedCount g) := ALLOWED_APP_of_bytes (InputBuffer irp)],
                              AllowedCount := AllowedCount g + 1\<rparr>)
                 else (ok, g))
              else (ok, g))
         | _ \<Rightarrow> (\<lparr>Status = STATUS_INVALID_DEVICE_REQUEST, Information = 0, OutputData = []\<rparr>, g))"

section \<open>Runs of the driver\<close>

text \<open>
  \<^verbatim>\<open>DriverEntry\<close> zeroes the context (\<^verbatim>\<open>RtlZeroMemory\<close>) before anything else runs.
\<close>

definition g_Context_init :: NETGUARD_CONTEXT where
  "g_Context_init =
     \<lparr>Enabled = 0,
      PendingConnections = replicate MAX_PENDING_CONNECTIONS
        \<lparr>connectionId = 0, processId = 0, processPath = replicate MAX_PATH_LENGTH 0,
         remoteIp = 0, remotePort = 0, timestamp = 0, responded = 0, allowed = 0\<rparr>,
      PendingCount = 0,
      PendingEvent = False,
      AllowedApps = replicate MAX_ALLOWED_APPS
        \<lparr>app_processPath = replicate MAX_PATH_LENGTH 0, blocked = 0\<rparr>,
      AllowedCount = 0,
      TotalConnections = 0,
      BlockedConnections = 0,
      AllowedConnections = 0\<rparr>"

text \<open>The pending queue is the slots below the count, oldest first.\<close>

definition pending :: "NETGUARD_CONTEXT \<Rightarrow> PENDING_CONNECTION list" where
  "pending g = take (unat (PendingCount g)) (PendingConnections g)"

text \<open>
  The shape every function relies on and keeps: the arrays have their declared sizes, the
  counts stay within them, every path buffer of a pending slot has its declared length.
\<close>

definition valid_context :: "NETGUARD_CONTEXT \<Rightarrow> bool" where
  "valid_context g \<longleftrightarrow>
     length (PendingConnections g) = MAX_PENDING_CONNECTIONS \<and>
     unat (PendingCount g) \<le> MAX_PENDING_CONNECTIONS \<and>
     length (AllowedApps g) = MAX_ALLOWED_APPS \<and>
     unat (AllowedCount g) \<le> MAX_ALLOWED_APPS \<and>
     list_all (\<lambda>c. length (processPath c) = MAX_PATH_LENGTH) (PendingConnections g)"

text \<open>
  What reaches the driver after \<^verbatim>\<open>DriverEntry\<close>: a connection attempt handed to the callout
  (with the system time at that moment), or a control request.
\<close>

datatype event =
    Classify FWPS_INCOMING_VALUES0 FWPS_INCOMING_METADATA_VALUES0 UINT64 FWPS_CLASSIFY_OUT0
  | DeviceControl IRP

fun step :: "NETGUARD_CONTEXT \<Rightarrow> event \<Rightarrow> NETGUARD_CONTEXT" where
  "step g (Classify inFixedValues inMetaValues now classifyOut) =
     snd (NetGuardClassifyFn g inFixedValues inMetaValues now classifyOut)"
| "step g (DeviceControl irp) = snd (NetGuardDeviceControl g irp)"

fun run :: "NETGUARD_CONTEXT \<Rightarrow> event list \<Rightarrow> NETGUARD_CONTEXT" where
  "run g [] = g"
| "run g (ev # evs) = run (step g ev) evs"

text \<open>
  The connection id an event's admission returns: the callout reaches its call of
  \<^verbatim>\<open>AddPendingConnection\<close> (enabled, not a system process, no list entry) and the call
  finds a free slot.
\<close>

fun admission :: "NETGUARD_CONTEXT \<Rightarrow> event \<Rightarrow> UINT64 option" where
  "admission g (Classify inFixedValues inMetaValues now classifyOut) =
     (if Enabled g \<noteq> 0 \<and>
         classify_processId inMetaValues \<noteq> 0 \<and> classify_processId inMetaValues \<noteq> 4 \<and>
         IsAppInList g (classify_processPath inMetaValues) = None \<and>
         unat (PendingCount g) < MAX_PENDING_CONNECTIONS
      then Some (fst (AddPendingConnection g (classify_processId inMetaValues)
                   (classify_processPath inMetaValues) (IP_REMOTE_ADDRESS inFixedValues)
                   (IP_REMOTE_PORT inFixedValues) now))
      else None)"
| "admission g (DeviceControl irp) = None"

fun admitted :: "NETGUARD_CONTEXT \<Rightarrow> event list \<Rightarrow> UINT64 list" where
  "admitted g [] = []"
| "admitted g (ev # evs) =
     (case admission g ev of Some connId \<Rightarrow> [connId] | None \<Rightarrow> []) @ admitted (step g ev) evs"

text \<open>
  The ids of the pending queue grow from its front to its back and none exceeds the
  counter: what holds of every context the driver reaches while the counter has not
  wrapped.
\<close>

definition pending_ids_increasing :: "NETGUARD_CONTEXT \<Rightarrow> bool" where
  "pending_ids_increasing g \<longleftrightarrow>
     sorted_wrt (<) (map connectionId (pending g)) \<and>
     list_all (\<lambda>c. connectionId c \<le> TotalConnections g) (pending g)"

section \<open>Requests, connection attempts and contexts used as examples\<close>

text \<open>
  Control requests as a client builds them, a connection attempt of the program
  \<^verbatim>\<open>x.exe\<close>, and contexts the driver reaches from \<^verbatim>\<open>DriverEntry\<close>: after enabling and
  three such attempts; after enabling and 256 of them, when every slot is pending; after
  enabling and adding \<^verbatim>\<open>X.EXE\<close> as blocked. A run interleaves attempts with a response.
  The last two contexts hold two list entries: \<^verbatim>\<open>x.exe\<close> allowed, then \<^verbatim>\<open>X.EXE\<close> blocked;
  and \<^verbatim>\<open>y.exe\<close> allowed, then \<^verbatim>\<open>X.EXE\<close> blocked.
\<close>

definition irp_enable :: IRP where
  "irp_enable = \<lparr>IoControlCode = IOCTL_NETGUARD_ENABLE, InputBuffer = [], OutputBufferLength = 0\<rparr>"

definition irp_respond :: "UINT64 \<Rightarrow> BOOLEAN \<Rightarrow> IRP" where
  "irp_respond connId a =
     \<lparr>IoControlCode = IOCTL_NETGUARD_RESPOND, InputBuffer = bytes_UINT64 connId @ [a],
      OutputBufferLength = 0\<rparr>"

definition irp_get_pending :: "UINT32 \<Rightarrow> IRP" where
  "irp_get_pending n =
     \<lparr>IoControlCode = IOCTL_NETGUARD_GET_PENDING, InputBuffer = [], OutputBufferLength = n\<rparr>"

definition irp_add_allowed :: "UCHAR list \<Rightarrow> BOOLEAN \<Rightarrow> IRP" where
  "irp_add_allowed path b =
     \<lparr>IoControlCode = IOCTL_NETGUARD_ADD_ALLOWED,
      InputBuffer = path @ replicate (2 * MAX_PATH_LENGTH - length path) 0 @ [b, 0],
      OutputBufferLength = 0\<rparr>"

definition x_exe :: "UCHAR list" where
  "x_exe = [0x78, 0, 0x2E, 0, 0x65, 0, 0x78, 0, 0x65, 0]"

definition X_EXE :: "UCHAR list" where
  "X_EXE = [0x58, 0, 0x2E, 0, 0x45, 0, 0x58, 0, 0x45, 0]"

definition connect_values :: FWPS_INCOMING_VALUES0 where
  "connect_values = \<lparr>IP_REMOTE_ADDRESS = 0x0A000001, IP_REMOTE_PORT = 443\<rparr>"

definition connect_meta :: "UINT64 \<Rightarrow> FWPS_INCOMING_METADATA_VALUES0" where
  "connect_meta pid = \<lparr>meta_processId = Some pid, meta_processPath = Some x_exe\<rparr>"

definition connect_out :: FWPS_CLASSIFY_OUT0 where
  "connect_out = \<lparr>actionType = FWP_ACTION_PERMIT, rights = 1\<rparr>"

definition ev_connect :: "UINT64 \<Rightarrow> event" where
  "ev_connect pid = Classify connect_values (connect_meta pid) 7 connect_out"

definition three_pending :: NETGUARD_CONTEXT where
  "three_pending =
     run g_Context_init [DeviceControl irp_enable, ev_connect 100, ev_connect 101, ev_connect 102]"

definition saturated_run :: "event list" where
  "saturated_run = DeviceControl irp_enable # replicate MAX_PENDING_CONNECTIONS (ev_connect 100)"

definition saturated_context :: NETGUARD_CONTEXT where
  "saturated_context = run g_Context_init saturated_run"

definition blocked_x_exe :: NETGUARD_CONTEXT where
  "blocked_x_exe =
     run g_Context_init [DeviceControl irp_enable, DeviceControl (irp_add_allowed X_EXE 1)]"

definition example_run :: "event list" where
  "example_run =
     [DeviceControl irp_enable, ev_connect 100, ev_connect 101,
      DeviceControl (irp_respond 1 1), ev_connect 102]"

definition y_exe :: "UCHAR list" where
  "y_exe = [0x79, 0, 0x2E, 0, 0x65, 0, 0x78, 0, 0x65, 0]"

definition allowed_then_blocked :: NETGUARD_CONTEXT where
  "allowed_then_blocked =
     run g_Context_init [DeviceControl irp_enable, DeviceControl (irp_add_allowed x_exe 0),
       DeviceControl (irp_add_allowed X_EXE 1)]"

definition other_then_blocked :: NETGUARD_CONTEXT where
  "other_then_blocked =
     run g_Context_init [DeviceControl irp_enable, DeviceControl (irp_add_allowed y_exe 0),
       DeviceControl (irp_add_allowed X_EXE 1)]"

section \<open>Words, buffers and slots\<close>

text \<open>
  Reading back the bytes of an id gives the id; \<^verbatim>\<open>IsAppInList\<close> returns the first match
  among the slots in use; the operations on slots keep the context well formed, and the
  pending queue after an admission or a removal is the list one expects.
\<close>

lemma bit_read_bytes:
  "bit (foldr (\<lambda>b acc. ucast b OR push_bit 8 acc) bs (0 :: UINT64)) n \<longleftrightarrow>
     n < 64 \<and> n div 8 < length bs \<and> bit (bs ! (n div 8) :: UCHAR) (n mod 8)"
proof (induction bs arbitrary: n)
  case Nil
  show ?case by simp
next
  case (Cons b bs)
  show ?case
  proof (cases "n < 8")
    case True
    then show ?thesis
      by (simp add: bit_simps)
  next
    case False
    then have split: "n div 8 = Suc ((n - 8) div 8)" "n mod 8 = (n - 8) mod 8"
      by (simp_all add: le_div_geq le_mod_geq)
    have "bit (foldr (\<lambda>b acc. ucast b OR push_bit 8 acc) (b # bs) (0 :: UINT64)) n \<longleftrightarrow>
        n < 64 \<and> bit (foldr (\<lambda>b acc. ucast b OR push_bit 8 acc) bs (0 :: UINT64)) (n - 8)"
      using False bit_imp_le_length [of b n] by (auto simp add: bit_simps)
    also have "\<dots> \<longleftrightarrow> n < 64 \<and> (n - 8) div 8 < length bs \<and>
        bit (bs ! ((n - 8) div 8)) ((n - 8) mod 8)"
      using Cons.IH [of "n - 8"] False by auto
    finally show ?thesis
      by (simp add: split)
  qed
qed

lemma nth_bytes_UINT64:
  assumes "k < 8"
  shows "bytes_UINT64 w ! k = ucast (drop_bit (8 * k) w)"
proof -
  from assms consider "k = 0" | "k = 1" | "k = 2" | "k = 3" | "k = 4" | "k = 5" | "k = 6" | "k = 7"
    by linarith
  then show ?thesis
    by cases (simp_all add: bytes_UINT64_def)
qed

lemma read_bytes_UINT64: "read_UINT64 (bytes_UINT64 w @ bs) = w"
proof (rule bit_word_eqI)
  fix n assume "n < LENGTH(64)"
  then have n: "n < 64" by simp
  then have k: "n div 8 < 8" by simp
  have bytes: "take 8 (bytes_UINT64 w @ bs) = bytes_UINT64 w"
    by (simp add: bytes_UINT64_def)
  have len: "length (bytes_UINT64 w) = 8"
    by (simp add: bytes_UINT64_def)
  have "bit (read_UINT64 (bytes_UINT64 w @ bs)) n \<longleftrightarrow>
      n < 64 \<and> n div 8 < length (bytes_UINT64 w) \<and> bit (bytes_UINT64 w ! (n div 8)) (n mod 8)"
    by (simp only: read_UINT64_def bytes bit_read_bytes)
  also have "\<dots> \<longleftrightarrow> bit (ucast (drop_bit (8 * (n div 8)) w) :: UCHAR) (n mod 8)"
    using n k by (simp only: len nth_bytes_UINT64 [OF k] simp_thms)
  also have "\<dots> \<longleftrightarrow> bit w n"
  proof -
    have "n mod 8 < LENGTH(8)" by simp
    then show ?thesis
      by (simp add: bit_simps add.commute)
  qed
  finally show "bit (read_UINT64 (bytes_UINT64 w @ bs)) n \<longleftrightarrow> bit w n" .
qed

lemma IsAppInList_first_match:
  "IsAppInList_from g path i =
     map_option blocked
       (find (\<lambda>a. wcsicmp (app_processPath a) path = 0)
          (map (\<lambda>k. AllowedApps g ! k) [i..<unat (AllowedCount g)]))"
proof (induction g path i rule: IsAppInList_from.induct)
  case (1 g path i)
  show ?case
  proof (cases "i < unat (AllowedCount g)")
    case True
    then show ?thesis
      using "1.IH" by (subst IsAppInList_from.simps) (simp add: upt_conv_Cons)
  next
    case False
    then show ?thesis
      by (subst IsAppInList_from.simps) simp
  qed
qed

lemma IsAppInList_from_first:
  "i \<le> k \<Longrightarrow> k < unat (AllowedCount g) \<Longrightarrow>
   wcsicmp (app_processPath (AllowedApps g ! k)) path = 0 \<Longrightarrow>
   \<forall>j. i \<le> j \<and> j < k \<longrightarrow> wcsicmp (app_processPath (AllowedApps g ! j)) path \<noteq> 0 \<Longrightarrow>
   IsAppInList_from g path i = Some (blocked (AllowedApps g ! k))"
proof (induction g path i rule: IsAppInList_from.induct)
  case (1 g path i)
  have lt: "i < unat (AllowedCount g)" using "1.prems" by simp
  show ?case
  proof (cases "i = k")
    case True
    then show ?thesis
      using lt "1.prems" by (subst IsAppInList_from.simps) simp
  next
    case False
    then have ik: "i < k" using "1.prems" by simp
    then have ne: "wcsicmp (app_processPath (AllowedApps g ! i)) path \<noteq> 0"
      using "1.prems" by simp
    have "IsAppInList_from g path (Suc i) = Some (blocked (AllowedApps g ! k))"
      using "1.IH" [OF lt ne] "1.prems" ik by simp
    then show ?thesis
      using lt ne by (subst IsAppInList_from.simps) simp
  qed
qed

lemma IsAppInList_from_none:
  "\<forall>j. i \<le> j \<and> j < unat (AllowedCount g) \<longrightarrow>
       wcsicmp (app_processPath (AllowedApps g ! j)) path \<noteq> 0 \<Longrightarrow>
   IsAppInList_from g path i = None"
proof (induction g path i rule: IsAppInList_from.induct)
  case (1 g path i)
  show ?case
  proof (cases "i < unat (AllowedCount g)")
    case True
    then have ne: "wcsicmp (app_processPath (AllowedApps g ! i)) path \<noteq> 0"
      using "1.prems" by simp
    have "IsAppInList_from g path (Suc i) = None"
      using "1.IH" [OF True ne] "1.prems" by simp
    then show ?thesis
      using True ne by (subst IsAppInList_from.simps) simp
  next
    case False
    then show ?thesis by (subst IsAppInList_from.simps) simp
  qed
qed

lemma IsAppInList_first_entry:
  assumes "k < unat (AllowedCount g)"
    and "wcsicmp (app_processPath (AllowedApps g ! k)) path = 0"
    and "\<forall>j<k. wcsicmp (app_processPath (AllowedApps g ! j)) path \<noteq> 0"
  shows "IsAppInList g path = Some (blocked (AllowedApps g ! k))"
  unfolding IsAppInList_def using assms by (intro IsAppInList_from_first) simp_all

lemma IsAppInList_no_entry:
  "IsAppInList g path = None \<longleftrightarrow>
     (\<forall>j < unat (AllowedCount g). wcsicmp (app_processPath (AllowedApps g ! j)) path \<noteq> 0)"
proof
  assume none: "IsAppInList g path = None"
  show "\<forall>j < unat (AllowedCount g). wcsicmp (app_processPath (AllowedApps g ! j)) path \<noteq> 0"
  proof (rule ccontr)
    assume "\<not> (\<forall>j < unat (AllowedCount g). wcsicmp (app_processPath (AllowedApps g ! j)) path \<noteq> 0)"
    then have ex: "\<exists>j. j < unat (AllowedCount g) \<and> wcsicmp (app_processPath (AllowedApps g ! j)) path = 0"
      by simp
    define k where "k = (LEAST j. j < unat (AllowedCount g) \<and>
        wcsicmp (app_processPath (AllowedApps g ! j)) path = 0)"
    have k: "k < unat (AllowedCount g) \<and> wcsicmp (app_processPath (AllowedApps g ! k)) path = 0"
      unfolding k_def using ex by (rule LeastI_ex)
    have "\<forall>j<k. wcsicmp (app_processPath (AllowedApps g ! j)) path \<noteq> 0"
    proof (intro allI impI)
      fix j assume "j < k"
      then have "\<not> (j < unat (AllowedCount g) \<and> wcsicmp (app_processPath (AllowedApps g ! j)) path = 0)"
        unfolding k_def by (rule not_less_Least)
      then show "wcsicmp (app_processPath (AllowedApps g ! j)) path \<noteq> 0"
        using \<open>j < k\<close> k by simp
    qed
    then have "IsAppInList g path = Some (blocked (AllowedApps g ! k))"
      using k by (intro IsAppInList_first_entry) simp_all
    then show False using none by simp
  qed
next
  assume "\<forall>j < unat (AllowedCount g). wcsicmp (app_processPath (AllowedApps g ! j)) path \<noteq> 0"
  then show "IsAppInList g path = None"
    unfolding IsAppInList_def by (intro IsAppInList_from_none) simp
qed

lemma unat_count_Suc: "unat (c :: UINT32) < 1024 \<Longrightarrow> unat (c + 1) = Suc (unat c)"
  by (simp add: unat_word_ariths)

lemma unat_count_pred: "0 < unat (c :: UINT32) \<Longrightarrow> unat (c - 1) = unat c - 1"
  by (simp add: unat_minus_one unat_gt_0)

lemma length_wcsncpy: "n \<le> length dst \<Longrightarrow> length (wcsncpy dst src n) = length dst"
proof -
  assume n: "n \<le> length dst"
  have "length (takeWhile (\<lambda>c. c \<noteq> 0) (take n src)) \<le> n"
    using length_takeWhile_le [of "\<lambda>c. c \<noteq> 0" "take n src"] by simp
  with n show ?thesis
    by (simp add: wcsncpy_def Let_def)
qed

lemma length_RtlMoveMemory_slots:
  "dst + n \<le> length xs \<Longrightarrow> src + n \<le> length xs \<Longrightarrow>
   length (RtlMoveMemory_slots xs dst src n) = length xs"
  by (simp add: RtlMoveMemory_slots_def)

lemma valid_context_init: "valid_context g_Context_init"
  by (simp add: valid_context_def g_Context_init_def list_all_iff)

lemma AddPendingConnection_full:
  "\<not> unat (PendingCount g) < MAX_PENDING_CONNECTIONS \<Longrightarrow>
   AddPendingConnection g pid path ip port now = (0, g)"
  by (simp add: AddPendingConnection_def)

lemma AddPendingConnection_id:
  "unat (PendingCount g) < MAX_PENDING_CONNECTIONS \<Longrightarrow>
   fst (AddPendingConnection g pid path ip port now) = TotalConnections g + 1"
  by (simp add: AddPendingConnection_def Let_def)

lemma AddPendingConnection_fields:
  "unat (PendingCount g) < MAX_PENDING_CONNECTIONS \<Longrightarrow>
   TotalConnections (snd (AddPendingConnection g pid path ip port now)) = TotalConnections g + 1 \<and>
   PendingCount (snd (AddPendingConnection g pid path ip port now)) = PendingCount g + 1 \<and>
   Enabled (snd (AddPendingConnection g pid path ip port now)) = Enabled g \<and>
   AllowedApps (snd (AddPendingConnection g pid path ip port now)) = AllowedApps g \<and>
   AllowedCount (snd (AddPendingConnection g pid path ip port now)) = AllowedCount g \<and>
   BlockedConnections (snd (AddPendingConnection g pid path ip port now)) = BlockedConnections g \<and>
   AllowedConnections (snd (AddPendingConnection g pid path ip port now)) = AllowedConnections g"
  by (simp add: AddPendingConnection_def Let_def)

lemma pending_AddPendingConnection:
  assumes "valid_context g" and "unat (PendingCount g) < MAX_PENDING_CONNECTIONS"
  shows "pending (snd (AddPendingConnection g pid path ip port now)) =
           pending g @
           [(PendingConnections g ! unat (PendingCount g))
              \<lparr>connectionId := TotalConnections g + 1, processId := pid,
               processPath := wcsncpy (processPath (PendingConnections g ! unat (PendingCount g)))
                 path (MAX_PATH_LENGTH - 1),
               remoteIp := ip, remotePort := port, timestamp := now,
               responded := FALSE, allowed := FALSE\<rparr>]"
proof -
  have len: "unat (PendingCount g) < length (PendingConnections g)"
    using assms by (simp add: valid_context_def)
  have cnt: "unat (PendingCount g + 1) = Suc (unat (PendingCount g))"
    using assms(2) by (simp add: unat_count_Suc MAX_PENDING_CONNECTIONS_def)
  show ?thesis
    using assms(2) len
    by (simp add: AddPendingConnection_def Let_def pending_def cnt take_Suc_conv_app_nth)
qed

lemma valid_AddPendingConnection:
  assumes "valid_context g"
  shows "valid_context (snd (AddPendingConnection g pid path ip port now))"
proof (cases "unat (PendingCount g) < MAX_PENDING_CONNECTIONS")
  case False
  then show ?thesis using assms by (simp add: AddPendingConnection_full)
next
  case True
  have len: "unat (PendingCount g) < length (PendingConnections g)"
    using assms True by (simp add: valid_context_def)
  have cnt: "unat (PendingCount g + 1) = Suc (unat (PendingCount g))"
    using True by (simp add: unat_count_Suc MAX_PENDING_CONNECTIONS_def)
  have slot: "length (processPath (PendingConnections g ! unat (PendingCount g))) = MAX_PATH_LENGTH"
    using assms len by (simp add: valid_context_def list_all_length)
  have path: "length (wcsncpy (processPath (PendingConnections g ! unat (PendingCount g)))
                 path (MAX_PATH_LENGTH - 1)) = MAX_PATH_LENGTH"
    using slot by (simp add: length_wcsncpy)
  show ?thesis
    using assms True len path
    by (auto simp add: AddPendingConnection_def Let_def valid_context_def cnt list_all_iff
        dest!: set_update_subset_insert [THEN subsetD])
qed

lemma respond_slot_fields:
  "Enabled (respond_slot g a k) = Enabled g \<and>
   TotalConnections (respond_slot g a k) = TotalConnections g \<and>
   BlockedConnections (respond_slot g a k) = BlockedConnections g \<and>
   AllowedConnections (respond_slot g a k) = AllowedConnections g \<and>
   AllowedApps (respond_slot g a k) = AllowedApps g \<and>
   AllowedCount (respond_slot g a k) = AllowedCount g \<and>
   PendingEvent (respond_slot g a k) = PendingEvent g \<and>
   PendingCount (respond_slot g a k) = PendingCount g - 1"
  by (simp add: respond_slot_def Let_def)

lemma pending_respond_slot:
  assumes "valid_context g" and "k < unat (PendingCount g)"
  shows "pending (respond_slot g a k) = take k (pending g) @ drop (Suc k) (pending g)"
proof -
  let ?n = "unat (PendingCount g)"
  let ?xs = "PendingConnections g"
  have n: "?n \<le> length ?xs"
    using assms(1) by (simp add: valid_context_def)
  have cnt: "unat (PendingCount g - 1) = ?n - 1"
    using assms(2) by (simp add: unat_count_pred)
  show ?thesis
  proof (cases "k < ?n - 1")
    case True
    then show ?thesis
      using n assms(2)
      by (auto simp add: respond_slot_def Let_def pending_def cnt RtlMoveMemory_slots_def
          min_def drop_take)
  next
    case False
    with assms(2) have "k = ?n - 1" by simp
    then show ?thesis
      using n assms(2) False
      by (simp add: respond_slot_def Let_def pending_def cnt)
  qed
qed

lemma valid_respond_slot:
  assumes "valid_context g" and "k < unat (PendingCount g)"
  shows "valid_context (respond_slot g a k)"
proof -
  let ?n = "unat (PendingCount g)"
  let ?xs = "PendingConnections g"
  let ?ys = "?xs[k := (?xs ! k)\<lparr>responded := TRUE, allowed := a\<rparr>]"
  have n: "?n \<le> length ?xs" and len: "length ?xs = MAX_PENDING_CONNECTIONS"
    using assms(1) by (simp_all add: valid_context_def)
  have cnt: "unat (PendingCount g - 1) = ?n - 1"
    using assms(2) by (simp add: unat_count_pred)
  have paths: "\<forall>c\<in>set ?xs. length (processPath c) = MAX_PATH_LENGTH"
    using assms(1) by (simp add: valid_context_def list_all_iff)
  have k: "k < length ?xs" using assms(2) n by simp
  have ys: "\<forall>c\<in>set ?ys. length (processPath c) = MAX_PATH_LENGTH"
  proof
    fix c assume "c \<in> set ?ys"
    then have "c = (?xs ! k)\<lparr>responded := TRUE, allowed := a\<rparr> \<or> c \<in> set ?xs"
      using set_update_subset_insert [of ?xs k] by auto
    then show "length (processPath c) = MAX_PATH_LENGTH"
      using paths k by (auto simp: nth_mem)
  qed
  have moved: "\<forall>c\<in>set (RtlMoveMemory_slots ?ys k (k + 1) (?n - k - 1)).
                 length (processPath c) = MAX_PATH_LENGTH"
    using ys paths by (auto simp: RtlMoveMemory_slots_def dest: in_set_takeD in_set_dropD)
  have mlen: "k < ?n - 1 \<Longrightarrow> length (RtlMoveMemory_slots ?ys k (k + 1) (?n - k - 1)) = length ?xs"
    using n by (simp add: length_RtlMoveMemory_slots)
  have le: "?n - 1 \<le> MAX_PENDING_CONNECTIONS"
    using n len by simp
  show ?thesis
    using assms(1) ys moved mlen cnt len le
    by (simp add: valid_context_def respond_slot_def Let_def list_all_iff)
qed

lemma respond_from_no_match:
  "\<forall>j. i \<le> j \<and> j < unat (PendingCount g) \<longrightarrow> connectionId (PendingConnections g ! j) \<noteq> connId \<Longrightarrow>
   respond_from g connId a i = g"
proof (induction g connId a i rule: respond_from.induct)
  case (1 g connId a i)
  show ?case
  proof (cases "i < unat (PendingCount g)")
    case True
    then have ne: "connectionId (PendingConnections g ! i) \<noteq> connId"
      using "1.prems" by simp
    have "respond_from g connId a (Suc i) = g"
      using "1.IH" [OF True ne] "1.prems" by simp
    then show ?thesis
      using True ne by (subst respond_from.simps) simp
  next
    case False
    then show ?thesis by (subst respond_from.simps) simp
  qed
qed

lemma respond_from_first_match:
  "i \<le> k \<Longrightarrow> k < unat (PendingCount g) \<Longrightarrow> connectionId (PendingConnections g ! k) = connId \<Longrightarrow>
   \<forall>j. i \<le> j \<and> j < k \<longrightarrow> connectionId (PendingConnections g ! j) \<noteq> connId \<Longrightarrow>
   respond_from g connId a i = respond_slot g a k"
proof (induction g connId a i rule: respond_from.induct)
  case (1 g connId a i)
  have lt: "i < unat (PendingCount g)" using "1.prems" by simp
  show ?case
  proof (cases "i = k")
    case True
    then show ?thesis
      using lt "1.prems" by (subst respond_from.simps) simp
  next
    case False
    then have ik: "i < k" using "1.prems" by simp
    then have ne: "connectionId (PendingConnections g ! i) \<noteq> connId"
      using "1.prems" by simp
    have "respond_from g connId a (Suc i) = respond_slot g a k"
      using "1.IH" [OF lt ne] "1.prems" ik by simp
    then show ?thesis
      using lt ne by (subst respond_from.simps) simp
  qed
qed

lemma respond_from_result:
  "respond_from g connId a i = g \<or>
   (\<exists>k. k < unat (PendingCount g) \<and> respond_from g connId a i = respond_slot g a k)"
proof (induction g connId a i rule: respond_from.induct)
  case (1 g connId a i)
  show ?case
  proof (cases "i < unat (PendingCount g)")
    case True
    show ?thesis
    proof (cases "connectionId (PendingConnections g ! i) = connId")
      case eq: True
      then show ?thesis
        using True by (subst (1 2) respond_from.simps) auto
    next
      case ne: False
      then show ?thesis
        using True "1.IH" [OF True ne] by (subst (1 2) respond_from.simps) simp
    qed
  next
    case False
    then show ?thesis by (subst respond_from.simps) simp
  qed
qed

lemma valid_respond_from: "valid_context g \<Longrightarrow> valid_context (respond_from g connId a i)"
  using respond_from_result [of g connId a i] by (auto simp: valid_respond_slot)

section \<open>Steps and runs\<close>

text \<open>
  Every event keeps the context well formed. An admission returns the counter plus one
  and stores it; no other event writes the counter. So the ids a run returns are
  \<open>t + 1, t + 2, \<dots>\<close> from the counter \<open>t\<close> it started with.
\<close>

lemma snd_NetGuardClassifyFn:
  "snd (NetGuardClassifyFn g inFixedValues inMetaValues now classifyOut) =
     (if Enabled g = 0 \<or> classify_processId inMetaValues = 0 \<or> classify_processId inMetaValues = 4
      then g
      else (case IsAppInList g (classify_processPath inMetaValues) of
              Some isBlocked \<Rightarrow>
                (if isBlocked \<noteq> 0 then g\<lparr>BlockedConnections := BlockedConnections g + 1\<rparr>
                 else g\<lparr>AllowedConnections := AllowedConnections g + 1\<rparr>)
            | None \<Rightarrow>
                snd (AddPendingConnection g (classify_processId inMetaValues)
                  (classify_processPath inMetaValues) (IP_REMOTE_ADDRESS inFixedValues)
                  (IP_REMOTE_PORT inFixedValues) now)))"
  by (simp add: NetGuardClassifyFn_def Let_def split: option.splits prod.splits)

lemma valid_NetGuardClassifyFn:
  assumes "valid_context g"
  shows "valid_context (snd (NetGuardClassifyFn g inFixedValues inMetaValues now classifyOut))"
proof -
  have counters: "\<And>x. valid_context (g\<lparr>BlockedConnections := x\<rparr>)"
    "\<And>x. valid_context (g\<lparr>AllowedConnections := x\<rparr>)"
    using assms by (simp_all add: valid_context_def)
  show ?thesis
    using assms counters
    by (simp add: snd_NetGuardClassifyFn valid_AddPendingConnection split: option.splits)
qed

lemma valid_NetGuardDeviceControl:
  assumes "valid_context g"
  shows "valid_context (snd (NetGuardDeviceControl g irp))"
proof (cases "IoControlCode irp")
  case IOCTL_NETGUARD_GET_PENDING
  then show ?thesis using assms by (simp add: NetGuardDeviceControl_def Let_def)
next
  case IOCTL_NETGUARD_RESPOND
  then show ?thesis using assms by (simp add: NetGuardDeviceControl_def Let_def valid_respond_from)
next
  case IOCTL_NETGUARD_ADD_ALLOWED
  have "unat (AllowedCount g) < MAX_ALLOWED_APPS \<Longrightarrow>
        unat (AllowedCount g + 1) \<le> MAX_ALLOWED_APPS"
    by (simp add: unat_count_Suc MAX_ALLOWED_APPS_def)
  then show ?thesis
    using assms IOCTL_NETGUARD_ADD_ALLOWED
    by (simp add: NetGuardDeviceControl_def Let_def valid_context_def)
next
  case IOCTL_NETGUARD_REMOVE_ALLOWED
  then show ?thesis using assms by (simp add: NetGuardDeviceControl_def Let_def)
next
  case IOCTL_NETGUARD_ENABLE
  then show ?thesis using assms by (simp add: NetGuardDeviceControl_def Let_def valid_context_def)
next
  case IOCTL_NETGUARD_DISABLE
  then show ?thesis using assms by (simp add: NetGuardDeviceControl_def Let_def valid_context_def)
next
  case (IOCTL_OTHER x)
  then show ?thesis using assms by (simp add: NetGuardDeviceControl_def Let_def)
qed

lemma valid_step: "valid_context g \<Longrightarrow> valid_context (step g ev)"
  by (cases ev) (simp_all add: valid_NetGuardClassifyFn valid_NetGuardDeviceControl)

lemma valid_run: "valid_context g \<Longrightarrow> valid_context (run g evs)"
  by (induction evs arbitrary: g) (simp_all add: valid_step)

lemma TotalConnections_respond_from:
  "TotalConnections (respond_from g connId a i) = TotalConnections g"
  using respond_from_result [of g connId a i] by (auto simp: respond_slot_fields)

lemma TotalConnections_NetGuardDeviceControl:
  "TotalConnections (snd (NetGuardDeviceControl g irp)) = TotalConnections g"
  by (cases "IoControlCode irp")
    (simp_all add: NetGuardDeviceControl_def Let_def TotalConnections_respond_from)

lemma admission_Some:
  assumes "admission g ev = Some connId"
  shows "connId = TotalConnections g + 1 \<and> TotalConnections (step g ev) = TotalConnections g + 1"
proof (cases ev)
  case (Classify inFixedValues inMetaValues now classifyOut)
  then show ?thesis
    using assms
    by (auto simp add: snd_NetGuardClassifyFn AddPendingConnection_id AddPendingConnection_fields
        split: if_splits)
next
  case (DeviceControl irp)
  then show ?thesis using assms by simp
qed

lemma admission_None:
  assumes "admission g ev = None"
  shows "TotalConnections (step g ev) = TotalConnections g"
proof (cases ev)
  case (Classify inFixedValues inMetaValues now classifyOut)
  then show ?thesis
    using assms
    by (auto simp add: snd_NetGuardClassifyFn AddPendingConnection_full
        split: if_splits option.splits)
next
  case (DeviceControl irp)
  then show ?thesis by (simp add: TotalConnections_NetGuardDeviceControl)
qed

lemma admitted_ids:
  "admitted g evs =
     map (\<lambda>k. TotalConnections g + of_nat (Suc k)) [0..<length (admitted g evs)]"
proof (induction evs arbitrary: g)
  case Nil
  show ?case by simp
next
  case (Cons ev evs)
  show ?case
  proof (cases "admission g ev")
    case None
    then show ?thesis
      using Cons.IH [of "step g ev"] by (simp add: admission_None)
  next
    case (Some connId)
    let ?m = "length (admitted (step g ev) evs)"
    have id: "connId = TotalConnections g + 1"
      and total: "TotalConnections (step g ev) = TotalConnections g + 1"
      using admission_Some [OF Some] by simp_all
    have "admitted g (ev # evs) = connId # admitted (step g ev) evs"
      using Some by simp
    also have "admitted (step g ev) evs =
        map (\<lambda>k. TotalConnections g + 1 + of_nat (Suc k)) [0..<?m]"
      using Cons.IH [of "step g ev"] total by simp
    also have "connId # map (\<lambda>k. TotalConnections g + 1 + of_nat (Suc k)) [0..<?m] =
        map (\<lambda>k. TotalConnections g + of_nat (Suc k)) [0..<Suc ?m]"
      by (simp add: id map_upt_Suc add.assoc del: upt_Suc)
    finally show ?thesis
      using Some by simp
  qed
qed

lemma TotalConnections_run:
  "TotalConnections (run g evs) = TotalConnections g + of_nat (length (admitted g evs))"
proof (induction evs arbitrary: g)
  case Nil
  show ?case by simp
next
  case (Cons ev evs)
  show ?case
  proof (cases "admission g ev")
    case None
    then show ?thesis
      using Cons.IH [of "step g ev"] by (simp add: admission_None)
  next
    case (Some connId)
    then show ?thesis
      using Cons.IH [of "step g ev"] admission_Some [OF Some] by simp
  qed
qed

lemma of_nat_Suc_strict_mono:
  assumes "i < j" and "j < n" and "n < 2 ^ 64"
  shows "(of_nat (Suc i) :: UINT64) < of_nat (Suc j)"
proof -
  have "unat (of_nat (Suc i) :: UINT64) = Suc i" "unat (of_nat (Suc j) :: UINT64) = Suc j"
    using assms by (simp_all add: unat_of_nat del: of_nat_Suc)
  then show ?thesis
    using assms(1) by (simp add: word_less_nat_alt del: of_nat_Suc)
qed

lemma sorted_ids:
  assumes "n < 2 ^ 64"
  shows "sorted_wrt (<) (map (\<lambda>k. (of_nat (Suc k) :: UINT64)) [0..<n])"
  using assms
  by (auto simp add: sorted_wrt_map sorted_wrt_iff_nth_less of_nat_Suc_strict_mono simp del: of_nat_Suc)

lemma admitted_init:
  "admitted g_Context_init evs =
     map (\<lambda>k. of_nat (Suc k)) [0..<length (admitted g_Context_init evs)]"
  using admitted_ids [of g_Context_init evs] by (simp add: g_Context_init_def)


lemma run_append: "run g (evs @ evs') = run (run g evs) evs'"
  by (induction evs arbitrary: g) simp_all

lemma admitted_append: "admitted g (evs @ evs') = admitted g evs @ admitted (run g evs) evs'"
  by (induction evs arbitrary: g) simp_all

lemma TotalConnections_init_run:
  "TotalConnections (run g_Context_init evs) = of_nat (length (admitted g_Context_init evs))"
  using TotalConnections_run [of g_Context_init evs] by (simp add: g_Context_init_def)

lemma fresh_id:
  assumes "n < 2 ^ 64 - 1"
  shows "(of_nat (Suc n) :: UINT64) \<notin> set (map (\<lambda>k. of_nat (Suc k)) [0..<n])"
proof
  assume "(of_nat (Suc n) :: UINT64) \<in> set (map (\<lambda>k. of_nat (Suc k)) [0..<n])"
  then obtain k where k: "k < n" and eq: "(of_nat (Suc n) :: UINT64) = of_nat (Suc k)"
    by auto
  have "Suc n < 2 ^ 64" using assms by simp
  from of_nat_Suc_strict_mono [OF k _ this] eq show False
    by simp
qed

lemma next_id_nonzero:
  assumes "n < 2 ^ 64 - 1"
  shows "(of_nat (Suc n) :: UINT64) \<noteq> 0"
proof -
  have "unat (of_nat (Suc n) :: UINT64) = Suc n"
    using assms by (simp add: unat_of_nat del: of_nat_Suc)
  then show ?thesis
    by (metis Zero_not_Suc unat_0)
qed

lemma classify_admits:
  assumes "valid_context g" and "Enabled g \<noteq> 0"
    and "classify_processId inMetaValues \<noteq> 0" and "classify_processId inMetaValues \<noteq> 4"
    and "IsAppInList g (classify_processPath inMetaValues) = None"
    and "unat (PendingCount g) < MAX_PENDING_CONNECTIONS"
  shows "NetGuardClassifyFn g inFixedValues inMetaValues now classifyOut =
           ((if TotalConnections g + 1 > 0
             then block_action (classifyOut\<lparr>actionType := FWP_ACTION_PERMIT\<rparr>)
             else classifyOut\<lparr>actionType := FWP_ACTION_PERMIT\<rparr>),
            snd (AddPendingConnection g (classify_processId inMetaValues)
              (classify_processPath inMetaValues) (IP_REMOTE_ADDRESS inFixedValues)
              (IP_REMOTE_PORT inFixedValues) now))"
  using assms AddPendingConnection_id [of g "classify_processId inMetaValues"
      "classify_processPath inMetaValues" "IP_REMOTE_ADDRESS inFixedValues"
      "IP_REMOTE_PORT inFixedValues" now]
  by (simp add: NetGuardClassifyFn_def Let_def case_prod_unfold)


section \<open>The bytes of a pending list request\<close>

text \<open>
  Each record of a well-formed context is 1064 bytes long, so the first
  \<open>count * 1064\<close> bytes of the array are the records of the pending queue laid end to
  end, and the \<open>k\<close>-th block of 1064 bytes is the \<open>k\<close>-th record.
\<close>

lemma length_bytes_path: "length (concat (map bytes_UINT16 ps)) = 2 * length ps"
  by (induction ps) (simp_all add: bytes_UINT16_def)

lemma length_bytes_PENDING_CONNECTION:
  "length (processPath c) = MAX_PATH_LENGTH \<Longrightarrow>
   length (bytes_PENDING_CONNECTION c) = sizeof_PENDING_CONNECTION"
  by (simp add: bytes_PENDING_CONNECTION_def sizeof_PENDING_CONNECTION_def MAX_PATH_LENGTH_def
      length_bytes_path bytes_UINT64_def bytes_UINT32_def bytes_UINT16_def)

lemma length_concat_chunks:
  "\<forall>x\<in>set xs. length (f x) = n \<Longrightarrow> length (concat (map f xs)) = length xs * n"
  by (induction xs) simp_all

lemma chunk_of_concat:
  "\<forall>x\<in>set xs. length (f x) = n \<Longrightarrow> k < length xs \<Longrightarrow>
   take n (drop (k * n) (concat (map f xs))) = f (xs ! k)"
proof (induction xs arbitrary: k)
  case Nil
  then show ?case by simp
next
  case (Cons x xs)
  show ?case
  proof (cases k)
    case 0
    then show ?thesis using Cons.prems by simp
  next
    case (Suc j)
    then show ?thesis using Cons.prems Cons.IH [of j] by simp
  qed
qed

lemma pending_paths:
  "valid_context g \<Longrightarrow> \<forall>c\<in>set (pending g). length (bytes_PENDING_CONNECTION c) = sizeof_PENDING_CONNECTION"
  by (auto simp add: valid_context_def pending_def list_all_iff length_bytes_PENDING_CONNECTION
      dest: in_set_takeD)

lemma length_pending: "valid_context g \<Longrightarrow> length (pending g) = unat (PendingCount g)"
  by (simp add: valid_context_def pending_def)

lemma nth_pending: "k < unat (PendingCount g) \<Longrightarrow> pending g ! k = PendingConnections g ! k"
  by (simp add: pending_def)

lemma take_bytes_array:
  assumes "valid_context g" and "m \<le> unat (PendingCount g) * sizeof_PENDING_CONNECTION"
  shows "take m (concat (map bytes_PENDING_CONNECTION (PendingConnections g))) =
         take m (concat (map bytes_PENDING_CONNECTION (pending g)))"
proof -
  let ?xs = "PendingConnections g"
  let ?n = "unat (PendingCount g)"
  have "concat (map bytes_PENDING_CONNECTION ?xs) =
      concat (map bytes_PENDING_CONNECTION (take ?n ?xs)) @
      concat (map bytes_PENDING_CONNECTION (drop ?n ?xs))"
    by (metis append_take_drop_id concat_append map_append)
  moreover have "length (concat (map bytes_PENDING_CONNECTION (take ?n ?xs))) =
      ?n * sizeof_PENDING_CONNECTION"
    using length_concat_chunks [OF pending_paths [OF assms(1)]] length_pending [OF assms(1)]
    by (simp add: pending_def)
  ultimately show ?thesis
    using assms(2) by (simp add: pending_def)
qed

lemma get_pending_result:
  assumes valid: "valid_context g"
    and code: "IoControlCode irp = IOCTL_NETGUARD_GET_PENDING"
    and res: "res = NetGuardDeviceControl g irp"
  shows "snd res = g \<and>
         Status (fst res) = STATUS_SUCCESS \<and>
         Information (fst res) =
           min (unat (OutputBufferLength irp)) (length (pending g) * sizeof_PENDING_CONNECTION) \<and>
         OutputData (fst res) =
           take (unat (OutputBufferLength irp)) (concat (map bytes_PENDING_CONNECTION (pending g))) \<and>
         length (OutputData (fst res)) = Information (fst res) \<and>
         (\<forall>k < Information (fst res) div sizeof_PENDING_CONNECTION.
            take sizeof_PENDING_CONNECTION (drop (k * sizeof_PENDING_CONNECTION) (OutputData (fst res))) =
              bytes_PENDING_CONNECTION (pending g ! k))"
proof -
  let ?size = "sizeof_PENDING_CONNECTION"
  let ?all = "concat (map bytes_PENDING_CONNECTION (pending g))"
  let ?copy = "min (unat (OutputBufferLength irp)) (unat (PendingCount g) * ?size)"
  have len: "length (pending g) = unat (PendingCount g)"
    by (rule length_pending [OF valid])
  have all: "length ?all = length (pending g) * ?size"
    by (rule length_concat_chunks [OF pending_paths [OF valid]])
  have present: "0 < ?copy \<Longrightarrow> SystemBuffer_present irp"
    by (simp add: SystemBuffer_present_def word_greater_zero_iff unat_gt_0 [symmetric])
  have out: "take ?copy (concat (map bytes_PENDING_CONNECTION (PendingConnections g))) =
      take (unat (OutputBufferLength irp)) ?all"
    using take_bytes_array [OF valid, of ?copy] all len by (simp add: min_def)
  have branch: "NetGuardDeviceControl g irp =
      (if 0 < ?copy \<and> SystemBuffer_present irp
       then (\<lparr>Status = STATUS_SUCCESS, Information = ?copy,
              OutputData = take ?copy (concat (map bytes_PENDING_CONNECTION (PendingConnections g)))\<rparr>, g)
       else (\<lparr>Status = STATUS_SUCCESS, Information = 0, OutputData = []\<rparr>, g))"
    using code by (simp add: NetGuardDeviceControl_def Let_def)
  have result: "res = (\<lparr>Status = STATUS_SUCCESS, Information = ?copy,
      OutputData = take (unat (OutputBufferLength irp)) ?all\<rparr>, g)"
  proof (cases "0 < ?copy")
    case True
    then have "0 < ?copy \<and> SystemBuffer_present irp"
      using present by (simp only: simp_thms)
    then have "res = (\<lparr>Status = STATUS_SUCCESS, Information = ?copy,
        OutputData = take ?copy (concat (map bytes_PENDING_CONNECTION (PendingConnections g)))\<rparr>, g)"
      unfolding res branch by (rule if_P)
    then show ?thesis
      by (simp only: out)
  next
    case False
    then have z: "?copy = 0" by linarith
    have "length (take (unat (OutputBufferLength irp)) ?all) = ?copy"
      using all len by (simp add: min.commute)
    with z have "length (take (unat (OutputBufferLength irp)) ?all) = 0"
      by (simp only:)
    then have e: "take (unat (OutputBufferLength irp)) ?all = []"
      by (simp only: length_0_conv)
    from False have "\<not> (0 < ?copy \<and> SystemBuffer_present irp)"
      by (simp only: simp_thms)
    then have "res = (\<lparr>Status = STATUS_SUCCESS, Information = 0, OutputData = []\<rparr>, g)"
      unfolding res branch by (rule if_not_P)
    then show ?thesis
      by (simp only: z e)
  qed
  have chunks: "take ?size (drop (k * ?size) (take (unat (OutputBufferLength irp)) ?all)) =
      bytes_PENDING_CONNECTION (pending g ! k)" if k: "k < ?copy div ?size" for k
  proof -
    have pos: "0 < ?size" by (simp add: sizeof_PENDING_CONNECTION_def)
    have "Suc k \<le> ?copy div ?size"
      using k by simp
    then have "Suc k * ?size \<le> ?copy div ?size * ?size"
      by (rule mult_le_mono1)
    also have "\<dots> \<le> ?copy"
      by (rule div_times_less_eq_dividend)
    finally have fit: "k * ?size + ?size \<le> unat (OutputBufferLength irp)"
      and klen: "Suc k * ?size \<le> length (pending g) * ?size"
      using len by simp_all
    from klen pos have "Suc k \<le> length (pending g)"
      by (simp only: mult_le_cancel2)
    then have "k < length (pending g)"
      by simp
    then have "take ?size (drop (k * ?size) ?all) = bytes_PENDING_CONNECTION (pending g ! k)"
      using chunk_of_concat [OF pending_paths [OF valid]] by simp
    moreover have "take ?size (drop (k * ?size) (take (unat (OutputBufferLength irp)) ?all)) =
        take ?size (drop (k * ?size) ?all)"
      using fit by (simp add: drop_take min_def)
    ultimately show ?thesis by simp
  qed
  show ?thesis
    using result all len chunks by (simp add: min_def)
qed

section \<open>Responding to a pending connection\<close>

text \<open>
  The loop stops at the first slot below the count whose id matches and removes it; when
  no such slot exists the context is returned as it was.
\<close>

lemma respond_request:
  "IoControlCode irp = IOCTL_NETGUARD_RESPOND \<Longrightarrow> 9 \<le> length (InputBuffer irp) \<Longrightarrow>
   NetGuardDeviceControl g irp =
     (\<lparr>Status = STATUS_SUCCESS, Information = 0, OutputData = []\<rparr>,
      respond_from g (read_UINT64 (InputBuffer irp)) (InputBuffer irp ! 8) 0)"
  by (simp add: NetGuardDeviceControl_def Let_def)

lemma respond_found:
  assumes valid: "valid_context g"
    and k: "k < length (pending g)"
    and match: "connectionId (pending g ! k) = connId"
    and first: "\<forall>j<k. connectionId (pending g ! j) \<noteq> connId"
    and irp: "IoControlCode irp = IOCTL_NETGUARD_RESPOND" "9 \<le> length (InputBuffer irp)"
      "read_UINT64 (InputBuffer irp) = connId"
  shows "NetGuardDeviceControl g irp =
           (\<lparr>Status = STATUS_SUCCESS, Information = 0, OutputData = []\<rparr>,
            respond_slot g (InputBuffer irp ! 8) k)"
proof -
  have kc: "k < unat (PendingCount g)"
    using k length_pending [OF valid] by simp
  have "connectionId (PendingConnections g ! k) = connId"
    using match kc by (simp add: nth_pending)
  moreover have "\<forall>j. 0 \<le> j \<and> j < k \<longrightarrow> connectionId (PendingConnections g ! j) \<noteq> connId"
    using first kc by (auto simp add: pending_def)
  ultimately have "respond_from g connId (InputBuffer irp ! 8) 0 = respond_slot g (InputBuffer irp ! 8) k"
    using kc by (intro respond_from_first_match) simp_all
  then show ?thesis
    using irp by (simp add: respond_request)
qed

lemma respond_unknown:
  assumes valid: "valid_context g"
    and unknown: "\<forall>c\<in>set (pending g). connectionId c \<noteq> connId"
    and irp: "IoControlCode irp = IOCTL_NETGUARD_RESPOND" "9 \<le> length (InputBuffer irp)"
      "read_UINT64 (InputBuffer irp) = connId"
  shows "NetGuardDeviceControl g irp =
           (\<lparr>Status = STATUS_SUCCESS, Information = 0, OutputData = []\<rparr>, g)"
proof -
  have "\<forall>j. 0 \<le> j \<and> j < unat (PendingCount g) \<longrightarrow> connectionId (PendingConnections g ! j) \<noteq> connId"
  proof (intro allI impI)
    fix j assume j: "0 \<le> j \<and> j < unat (PendingCount g)"
    then have "pending g ! j \<in> set (pending g)"
      using length_pending [OF valid] by simp
    then show "connectionId (PendingConnections g ! j) \<noteq> connId"
      using unknown j by (auto simp add: nth_pending)
  qed
  then have "respond_from g connId (InputBuffer irp ! 8) 0 = g"
    by (rule respond_from_no_match)
  then show ?thesis
    using irp by (simp add: respond_request)
qed

lemma set_remove_nth:
  "set (take k xs @ drop (Suc k) xs) \<subseteq> {xs ! j | j. j < length xs \<and> j \<noteq> k}"
proof
  fix x assume "x \<in> set (take k xs @ drop (Suc k) xs)"
  then consider "x \<in> set (take k xs)" | "x \<in> set (drop (Suc k) xs)" by auto
  then show "x \<in> {xs ! j | j. j < length xs \<and> j \<noteq> k}"
  proof cases
    case 1
    then obtain j where "j < length (take k xs)" "take k xs ! j = x"
      by (auto simp add: in_set_conv_nth)
    then have "j < length xs \<and> j \<noteq> k \<and> xs ! j = x" by simp
    then show ?thesis by blast
  next
    case 2
    then obtain j where "j < length (drop (Suc k) xs)" "drop (Suc k) xs ! j = x"
      by (auto simp add: in_set_conv_nth)
    then have "Suc k + j < length xs \<and> Suc k + j \<noteq> k \<and> xs ! (Suc k + j) = x" by simp
    then show ?thesis by blast
  qed
qed

lemma respond_twice:
  assumes valid: "valid_context g"
    and k: "k < length (pending g)"
    and match: "connectionId (pending g ! k) = connId"
    and once: "\<forall>j<length (pending g). j \<noteq> k \<longrightarrow> connectionId (pending g ! j) \<noteq> connId"
    and irp: "IoControlCode irp = IOCTL_NETGUARD_RESPOND" "9 \<le> length (InputBuffer irp)"
      "read_UINT64 (InputBuffer irp) = connId"
    and r1: "first = NetGuardDeviceControl g irp"
    and r2: "second = NetGuardDeviceControl (snd first) irp"
  shows "fst first = \<lparr>Status = STATUS_SUCCESS, Information = 0, OutputData = []\<rparr> \<and>
         pending (snd first) = take k (pending g) @ drop (Suc k) (pending g) \<and>
         PendingCount (snd first) = PendingCount g - 1 \<and>
         fst second = \<lparr>Status = STATUS_SUCCESS, Information = 0, OutputData = []\<rparr> \<and>
         snd second = snd first"
proof -
  have kc: "k < unat (PendingCount g)"
    using k length_pending [OF valid] by simp
  have before: "\<forall>j<k. connectionId (pending g ! j) \<noteq> connId"
    using once k by simp
  have first: "first = (\<lparr>Status = STATUS_SUCCESS, Information = 0, OutputData = []\<rparr>,
      respond_slot g (InputBuffer irp ! 8) k)"
    using respond_found [OF valid k match before irp] r1 by simp
  have valid': "valid_context (snd first)"
    using first valid_respond_slot [OF valid kc] by simp
  have pend: "pending (snd first) = take k (pending g) @ drop (Suc k) (pending g)"
    using first pending_respond_slot [OF valid kc] by simp
  have gone: "\<forall>c\<in>set (pending (snd first)). connectionId c \<noteq> connId"
  proof
    fix c assume "c \<in> set (pending (snd first))"
    then obtain j where "j < length (pending g)" "j \<noteq> k" "c = pending g ! j"
      using set_remove_nth [of k "pending g"] pend by auto
    then show "connectionId c \<noteq> connId"
      using once by simp
  qed
  have "second = (\<lparr>Status = STATUS_SUCCESS, Information = 0, OutputData = []\<rparr>, snd first)"
    using respond_unknown [OF valid' gone irp] r2 by simp
  then show ?thesis
    using first pend by (simp add: respond_slot_fields)
qed


lemma array_respond_slot:
  assumes valid: "valid_context g" and k: "k < unat (PendingCount g)"
  shows "PendingConnections (respond_slot g a k) =
           take k (pending g) @ drop (Suc k) (pending g) @
           [if k = unat (PendingCount g) - 1
            then (pending g ! k)\<lparr>responded := TRUE, allowed := a\<rparr>
            else last (pending g)] @
           drop (unat (PendingCount g)) (PendingConnections g)"
proof -
  let ?n = "unat (PendingCount g)"
  let ?xs = "PendingConnections g"
  let ?m = "(?xs ! k)\<lparr>responded := TRUE, allowed := a\<rparr>"
  have n: "?n \<le> length ?xs"
    using valid by (simp add: valid_context_def)
  have pos: "0 < ?n" using k by simp
  have "pending g \<noteq> []"
    using n pos by (auto simp add: pending_def)
  then have last: "last (pending g) = ?xs ! (?n - 1)"
    using n pos by (simp add: last_conv_nth) (simp add: pending_def)
  have nth: "pending g ! k = ?xs ! k"
    using k by (simp add: pending_def)
  show ?thesis
  proof (cases "k < ?n - 1")
    case True
    have tail: "drop (?n - 1) ?xs = ?xs ! (?n - 1) # drop ?n ?xs"
      using n pos Cons_nth_drop_Suc [of "?n - 1" ?xs] by simp
    have "PendingConnections (respond_slot g a k) =
        take k ?xs @ take (?n - k - 1) (drop (Suc k) ?xs) @ drop (?n - 1) ?xs"
      using True n k by (simp add: respond_slot_def Let_def RtlMoveMemory_slots_def)
    also have "take k ?xs = take k (pending g)"
      using k by (simp add: pending_def min_def)
    also have "take (?n - k - 1) (drop (Suc k) ?xs) = drop (Suc k) (pending g)"
      by (simp add: pending_def drop_take)
    finally show ?thesis
      using True tail last by simp
  next
    case False
    with k have eq: "k = ?n - 1" by simp
    have klen: "k < length ?xs" using k n by simp
    have "PendingConnections (respond_slot g a k) = ?xs[k := ?m]"
      using False by (simp add: respond_slot_def Let_def)
    also have "\<dots> = take k ?xs @ ?m # drop (Suc k) ?xs"
      using klen by (rule upd_conv_take_nth_drop)
    also have "take k ?xs = take k (pending g)"
      using k by (simp add: pending_def min_def)
    finally show ?thesis
      using eq pos nth by (simp add: pending_def)
  qed
qed

lemma context_respond_slot:
  "respond_slot g a k =
     g\<lparr>PendingConnections := PendingConnections (respond_slot g a k),
       PendingCount := PendingCount g - 1\<rparr>"
  by (simp add: respond_slot_def Let_def)

section \<open>The ids of the pending queue\<close>

text \<open>
  While the counter has not wrapped, the ids in the pending queue are strictly
  increasing: an admission appends the largest id so far and a removal keeps the order.
  So in every context reached by a run with fewer than \<open>2 ^ 64\<close> admissions no two
  pending connections share an id.
\<close>

lemma pending_counters [simp]:
  "pending (g\<lparr>BlockedConnections := x\<rparr>) = pending g"
  "pending (g\<lparr>AllowedConnections := x\<rparr>) = pending g"
  "pending (g\<lparr>Enabled := b\<rparr>) = pending g"
  "pending (g\<lparr>AllowedApps := apps, AllowedCount := n\<rparr>) = pending g"
  by (simp_all add: pending_def)

lemma sorted_wrt_remove_nth:
  "sorted_wrt P xs \<Longrightarrow> sorted_wrt P (take k xs @ drop (Suc k) xs)"
proof -
  assume s: "sorted_wrt P xs"
  have "sorted_wrt P (take k xs @ drop k xs)"
    using s by (simp only: append_take_drop_id)
  from this [unfolded sorted_wrt_append]
  have a: "sorted_wrt P (take k xs)"
    and c: "\<forall>x\<in>set (take k xs). \<forall>y\<in>set (drop k xs). P x y"
    by blast+
  have "sorted_wrt P (drop (Suc k) xs)"
    using s by (simp add: sorted_wrt_drop)
  moreover have "set (drop (Suc k) xs) \<subseteq> set (drop k xs)"
    by (metis drop_Suc set_drop_subset tl_drop drop_drop plus_1_eq_Suc)
  ultimately show ?thesis
    using a c by (auto simp add: sorted_wrt_append)
qed

lemma ids_respond_slot:
  assumes "valid_context g" and "k < unat (PendingCount g)" and "pending_ids_increasing g"
  shows "pending_ids_increasing (respond_slot g a k)"
proof -
  have pend: "pending (respond_slot g a k) = take k (pending g) @ drop (Suc k) (pending g)"
    by (rule pending_respond_slot [OF assms(1,2)])
  have "sorted_wrt (<) (map connectionId (take k (pending g) @ drop (Suc k) (pending g)))"
    using assms(3) sorted_wrt_remove_nth [of "(<)" "map connectionId (pending g)" k]
    by (simp add: pending_ids_increasing_def take_map drop_map)
  moreover have "\<forall>c\<in>set (take k (pending g) @ drop (Suc k) (pending g)).
      connectionId c \<le> TotalConnections g"
    using assms(3) by (auto simp add: pending_ids_increasing_def list_all_iff
        dest: in_set_takeD in_set_dropD)
  ultimately show ?thesis
    by (simp add: pending_ids_increasing_def pend respond_slot_fields list_all_iff)
qed

lemma ids_NetGuardDeviceControl:
  assumes "valid_context g" and "pending_ids_increasing g"
  shows "pending_ids_increasing (snd (NetGuardDeviceControl g irp))"
proof (cases "IoControlCode irp = IOCTL_NETGUARD_RESPOND")
  case True
  then show ?thesis
    using respond_from_result [of g "read_UINT64 (InputBuffer irp)" "InputBuffer irp ! 8" 0] assms
    by (auto simp add: NetGuardDeviceControl_def Let_def ids_respond_slot)
next
  case False
  then show ?thesis
    using assms
    by (cases "IoControlCode irp")
      (simp_all add: NetGuardDeviceControl_def Let_def pending_ids_increasing_def)
qed

lemma word_less_succ:
  assumes "(t :: UINT64) + 1 \<noteq> 0"
  shows "t < t + 1"
  using assms by (simp add: word_less_nat_alt unatSuc add.commute)

lemma ids_AddPendingConnection:
  assumes valid: "valid_context g" and ids: "pending_ids_increasing g"
    and free: "unat (PendingCount g) < MAX_PENDING_CONNECTIONS"
    and nowrap: "TotalConnections g + 1 \<noteq> 0"
  shows "pending_ids_increasing (snd (AddPendingConnection g pid path ip port now))"
proof -
  have lt: "TotalConnections g < TotalConnections g + 1"
    by (rule word_less_succ [OF nowrap])
  have below: "\<forall>c\<in>set (pending g). connectionId c < TotalConnections g + 1"
    using ids lt by (auto simp add: pending_ids_increasing_def list_all_iff)
  then have le: "\<forall>c\<in>set (pending g). connectionId c \<le> TotalConnections g + 1"
    by auto
  show ?thesis
    using ids below le
    by (simp add: pending_ids_increasing_def pending_AddPendingConnection [OF valid free]
        AddPendingConnection_fields [OF free] sorted_wrt_append list_all_iff)
qed

lemma ids_step:
  assumes valid: "valid_context g" and ids: "pending_ids_increasing g"
    and nowrap: "admission g ev \<noteq> None \<longrightarrow> TotalConnections g + 1 \<noteq> 0"
  shows "pending_ids_increasing (step g ev)"
proof (cases ev)
  case (DeviceControl irp)
  then show ?thesis
    using ids_NetGuardDeviceControl [OF valid ids] by simp
next
  case (Classify inFixedValues inMetaValues now classifyOut)
  have counters: "\<And>x. pending_ids_increasing (g\<lparr>BlockedConnections := x\<rparr>)"
    "\<And>x. pending_ids_increasing (g\<lparr>AllowedConnections := x\<rparr>)"
    using ids by (simp_all add: pending_ids_increasing_def)
  show ?thesis
  proof (cases "admission g ev")
    case None
    then show ?thesis
      using Classify ids counters
      by (auto simp add: snd_NetGuardClassifyFn AddPendingConnection_full
          split: option.splits if_splits)
  next
    case (Some connId)
    then have "TotalConnections g + 1 \<noteq> 0"
      using nowrap by simp
    then show ?thesis
      using Some Classify ids_AddPendingConnection [OF valid ids]
      by (auto simp add: snd_NetGuardClassifyFn split: if_splits)
  qed
qed

lemma ids_run:
  assumes "valid_context g" and "pending_ids_increasing g"
    and "unat (TotalConnections g) + length (admitted g evs) < 2 ^ 64"
  shows "pending_ids_increasing (run g evs)"
  using assms
proof (induction evs arbitrary: g)
  case Nil
  then show ?case by simp
next
  case (Cons ev evs)
  show ?case
  proof (cases "admission g ev")
    case None
    then have "pending_ids_increasing (step g ev)"
      using ids_step [OF Cons.prems(1,2)] by simp
    moreover have "unat (TotalConnections (step g ev)) + length (admitted (step g ev) evs) < 2 ^ 64"
      using Cons.prems(3) None by (simp add: admission_None)
    ultimately show ?thesis
      using Cons.IH [of "step g ev"] valid_step [OF Cons.prems(1)] by simp
  next
    case (Some connId)
    have small: "unat (TotalConnections g) + 1 < 2 ^ 64"
      using Cons.prems(3) Some by simp
    then have succ: "unat (TotalConnections g + 1) = unat (TotalConnections g) + 1"
      by (simp add: unat_add_lem [THEN iffD1])
    then have nz: "TotalConnections g + 1 \<noteq> 0"
      by (metis add_is_0 unat_0 zero_neq_one)
    have "pending_ids_increasing (step g ev)"
      using ids_step [OF Cons.prems(1,2)] nz by simp
    moreover have "unat (TotalConnections (step g ev)) + length (admitted (step g ev) evs) < 2 ^ 64"
      using Cons.prems(3) Some admission_Some [OF Some] succ by simp
    ultimately show ?thesis
      using Cons.IH [of "step g ev"] valid_step [OF Cons.prems(1)] by simp
  qed
qed

lemma reachable_ids_distinct:
  assumes "length (admitted g_Context_init evs) < 2 ^ 64"
  shows "distinct (map connectionId (pending (run g_Context_init evs)))"
proof -
  have "pending_ids_increasing g_Context_init"
    by (simp add: pending_ids_increasing_def pending_def g_Context_init_def)
  moreover have "unat (TotalConnections g_Context_init) + length (admitted g_Context_init evs) < 2 ^ 64"
    using assms by (simp add: g_Context_init_def)
  ultimately have "pending_ids_increasing (run g_Context_init evs)"
    using ids_run [OF valid_context_init] by simp
  then show ?thesis
    by (simp add: pending_ids_increasing_def strict_sorted_iff)
qed

lemma filter_remove_nth:
  "distinct (map f xs) \<Longrightarrow> k < length xs \<Longrightarrow>
   filter (\<lambda>x. f x \<noteq> f (xs ! k)) xs = take k xs @ drop (Suc k) xs"
proof (induction xs arbitrary: k)
  case Nil
  then show ?case by simp
next
  case (Cons x xs)
  show ?case
  proof (cases k)
    case 0
    have "\<forall>y\<in>set xs. f y \<noteq> f x"
      using Cons.prems(1) by (force simp add: image_iff)
    then have "filter (\<lambda>y. f y \<noteq> f x) xs = xs"
      by (simp add: filter_id_conv)
    then show ?thesis using 0 by simp
  next
    case (Suc j)
    then have "f x \<noteq> f (xs ! j)"
      using Cons.prems by auto
    then show ?thesis
      using Suc Cons.prems Cons.IH [of j] by simp
  qed
qed

section \<open>Evaluating the examples\<close>

text \<open>What the example runs admit and what the contexts they reach hold.\<close>

lemma wchars_of_bytes_zeros: "wchars_of_bytes (replicate (2 * n) 0) = replicate n 0"
  by (induction n) simp_all

lemma wcsicmp_zeros: "wcsicmp (replicate m 0) (replicate n 0) = 0"
  by (cases m; cases n) (simp_all add: towlower_def)

lemma path_x_exe:
  "classify_processPath (connect_meta pid) = [0x78, 0x2E, 0x65, 0x78, 0x65] @ replicate 507 0"
  using wchars_of_bytes_zeros [of 507]
  by (simp add: classify_processPath_def connect_meta_def x_exe_def MAX_PATH_LENGTH_def)

lemma pid_connect: "classify_processId (connect_meta 100) = 100"
  "classify_processId (connect_meta 101) = 101" "classify_processId (connect_meta 102) = 102"
  by (simp_all add: classify_processId_def connect_meta_def)

lemma IsAppInList_empty: "AllowedCount g = 0 \<Longrightarrow> IsAppInList g path = None"
  by (simp add: IsAppInList_def IsAppInList_from.simps)

lemma take_3: "3 \<le> length xs \<Longrightarrow> take 3 xs = [xs ! 0, xs ! 1, xs ! 2]"
  by (auto simp add: numeral_3_eq_3 Suc_le_length_iff)

lemmas eval_defs = irp_enable_def ev_connect_def connect_values_def connect_out_def
  path_x_exe pid_connect IsAppInList_empty g_Context_init_def TRUE_def FALSE_def
  MAX_PENDING_CONNECTIONS_def MAX_PATH_LENGTH_def
  AddPendingConnection_def snd_NetGuardClassifyFn NetGuardDeviceControl_def Let_def

lemma three_pending_ids: "map connectionId (pending three_pending) = [1, 2, 3]"
  by (simp add: three_pending_def pending_def eval_defs take_3)

lemma three_pending_admitted:
  "admitted g_Context_init [DeviceControl irp_enable, ev_connect 100, ev_connect 101, ev_connect 102]
     = [1, 2, 3]"
  by (simp add: eval_defs)

lemma three_pending_fields:
  "Enabled three_pending = 1" "PendingCount three_pending = 3" "AllowedCount three_pending = 0"
  "TotalConnections three_pending = 3" "BlockedConnections three_pending = 0"
  by (simp_all add: three_pending_def eval_defs)

lemma three_pending_valid: "valid_context three_pending"
  unfolding three_pending_def by (rule valid_run [OF valid_context_init])

lemma read_irp_respond: "read_UINT64 (InputBuffer (irp_respond 2 a)) = 2"
  by (simp add: irp_respond_def bytes_UINT64_def read_UINT64_def)

lemma connects_fill:
  assumes "Enabled g = 1" and "AllowedCount g = 0"
    and "unat (PendingCount g) + n \<le> MAX_PENDING_CONNECTIONS"
  shows "Enabled (run g (replicate n (ev_connect 100))) = 1 \<and>
         AllowedCount (run g (replicate n (ev_connect 100))) = 0 \<and>
         BlockedConnections (run g (replicate n (ev_connect 100))) = BlockedConnections g \<and>
         unat (PendingCount (run g (replicate n (ev_connect 100)))) = unat (PendingCount g) + n"
  using assms
proof (induction n arbitrary: g)
  case 0
  then show ?case by simp
next
  case (Suc n)
  let ?g = "step g (ev_connect 100)"
  have free: "unat (PendingCount g) < MAX_PENDING_CONNECTIONS"
    using Suc.prems(3) by simp
  have step: "?g = snd (AddPendingConnection g (classify_processId (connect_meta 100))
      (classify_processPath (connect_meta 100)) (IP_REMOTE_ADDRESS connect_values)
      (IP_REMOTE_PORT connect_values) 7)"
    using Suc.prems(1,2)
    by (simp add: ev_connect_def snd_NetGuardClassifyFn pid_connect IsAppInList_empty)
  have cnt: "unat (PendingCount ?g) = Suc (unat (PendingCount g))"
    using free AddPendingConnection_fields [OF free]
    by (simp add: step unat_count_Suc MAX_PENDING_CONNECTIONS_def)
  have fields: "Enabled ?g = 1" "AllowedCount ?g = 0" "BlockedConnections ?g = BlockedConnections g"
    using Suc.prems(1,2) AddPendingConnection_fields [OF free] by (simp_all add: step)
  have "unat (PendingCount ?g) + n \<le> MAX_PENDING_CONNECTIONS"
    using Suc.prems(3) cnt by simp
  from Suc.IH [OF fields(1,2) this] show ?case
    using cnt fields(3) by simp
qed

lemma saturated_fields:
  "Enabled (run g_Context_init saturated_run) = 1"
  "AllowedCount (run g_Context_init saturated_run) = 0"
  "BlockedConnections (run g_Context_init saturated_run) = 0"
  "unat (PendingCount (run g_Context_init saturated_run)) = MAX_PENDING_CONNECTIONS"
proof -
  let ?g = "step g_Context_init (DeviceControl irp_enable)"
  have g: "Enabled ?g = 1" "AllowedCount ?g = 0" "PendingCount ?g = 0" "BlockedConnections ?g = 0"
    by (simp_all add: irp_enable_def NetGuardDeviceControl_def g_Context_init_def TRUE_def)
  have "unat (PendingCount ?g) + MAX_PENDING_CONNECTIONS \<le> MAX_PENDING_CONNECTIONS"
    unfolding g(3) by simp
  from connects_fill [OF g(1,2) this]
  show "Enabled (run g_Context_init saturated_run) = 1"
    "AllowedCount (run g_Context_init saturated_run) = 0"
    "BlockedConnections (run g_Context_init saturated_run) = 0"
    "unat (PendingCount (run g_Context_init saturated_run)) = MAX_PENDING_CONNECTIONS"
    unfolding saturated_run_def run.simps g(3,4) by simp_all
qed

lemma three_pending_marks: "map responded (pending three_pending) = [0, 0, 0]"
  by (simp add: three_pending_def pending_def eval_defs take_3)

lemma read_irp_respond_id: "read_UINT64 (InputBuffer (irp_respond connId a)) = connId"
  by (simp add: irp_respond_def read_bytes_UINT64)

section \<open>Classification with enforcement disabled, and of system processes\<close>

text \<open>
  C8. While enforcement is disabled, every classification returns PERMIT and returns the
  context as it was: no counter, no pending slot and no list entry changes.
\<close>

theorem disabled_passthrough:
  "Enabled g = 0 \<Longrightarrow>
   NetGuardClassifyFn g inFixedValues inMetaValues now classifyOut =
     (classifyOut\<lparr>actionType := FWP_ACTION_PERMIT\<rparr>, g)"
  by (simp add: NetGuardClassifyFn_def)

theorem disabled_passthrough_witness:
  "Enabled g_Context_init = 0 \<and>
   NetGuardClassifyFn g_Context_init \<lparr>IP_REMOTE_ADDRESS = 0x0A000001, IP_REMOTE_PORT = 443\<rparr>
     \<lparr>meta_processId = Some 100, meta_processPath = None\<rparr> 7
     \<lparr>actionType = FWP_ACTION_BLOCK, rights = 1\<rparr> =
     (\<lparr>actionType = FWP_ACTION_PERMIT, rights = 1\<rparr>, g_Context_init)"
proof -
  have off: "Enabled g_Context_init = 0"
    by (simp add: g_Context_init_def)
  show ?thesis
    using off disabled_passthrough [OF off, of "\<lparr>IP_REMOTE_ADDRESS = 0x0A000001, IP_REMOTE_PORT = 443\<rparr>"
      "\<lparr>meta_processId = Some 100, meta_processPath = None\<rparr>" 7
      "\<lparr>actionType = FWP_ACTION_BLOCK, rights = 1\<rparr>"]
    by simp
qed

text \<open>
  C9. A connection attempt whose process id is 0 or 4 is permitted and changes nothing in
  the context, whatever the lists hold and whether enforcement is enabled or not.
\<close>

theorem system_process_exemption:
  "classify_processId inMetaValues = 0 \<or> classify_processId inMetaValues = 4 \<Longrightarrow>
   NetGuardClassifyFn g inFixedValues inMetaValues now classifyOut =
     (classifyOut\<lparr>actionType := FWP_ACTION_PERMIT\<rparr>, g)"
  by (auto simp add: NetGuardClassifyFn_def Let_def)

theorem system_process_exemption_witness:
  "classify_processId (connect_meta 4) = 4 \<and>
   NetGuardClassifyFn blocked_x_exe connect_values (connect_meta 4) 7
     \<lparr>actionType = FWP_ACTION_BLOCK, rights = 1\<rparr> =
     (\<lparr>actionType = FWP_ACTION_PERMIT, rights = 1\<rparr>, blocked_x_exe)"
proof -
  have pid: "classify_processId (connect_meta 4) = 4"
    by (simp add: classify_processId_def connect_meta_def)
  show ?thesis
    using pid system_process_exemption [OF disjI2, OF pid, of blocked_x_exe connect_values 7
      "\<lparr>actionType = FWP_ACTION_BLOCK, rights = 1\<rparr>"]
    by simp
qed

section \<open>Registry precedence\<close>

text \<open>
  C3, as the code has it. With enforcement enabled and a process id other than 0 and 4,
  a path that matches a list entry (compared as \<^verbatim>\<open>_wcsicmp\<close> does, among the slots in use)
  is decided by the first entry that matches, in the order the entries were added: if
  that entry is blocked the verdict is BLOCK and there is one more blocked connection, if
  it is allowed the verdict is PERMIT and there is one more allowed connection. Entries
  behind the first match are not consulted. Nothing else changes: the pending slots,
  their count and the total are as before, whatever the pending queue holds.
\<close>

theorem registry_first_match_decides:
  assumes "Enabled g \<noteq> 0"
    and "classify_processId inMetaValues \<noteq> 0" and "classify_processId inMetaValues \<noteq> 4"
    and "k < unat (AllowedCount g)"
    and "wcsicmp (app_processPath (AllowedApps g ! k)) (classify_processPath inMetaValues) = 0"
    and "\<forall>j<k. wcsicmp (app_processPath (AllowedApps g ! j)) (classify_processPath inMetaValues) \<noteq> 0"
    and "res = NetGuardClassifyFn g inFixedValues inMetaValues now classifyOut"
  shows "res =
           (if blocked (AllowedApps g ! k) \<noteq> 0
            then (classifyOut\<lparr>actionType := FWP_ACTION_BLOCK,
                    rights := rights classifyOut AND NOT FWPS_RIGHT_ACTION_WRITE\<rparr>,
                  g\<lparr>BlockedConnections := BlockedConnections g + 1\<rparr>)
            else (classifyOut\<lparr>actionType := FWP_ACTION_PERMIT\<rparr>,
                  g\<lparr>AllowedConnections := AllowedConnections g + 1\<rparr>)) \<and>
         pending (snd res) = pending g \<and>
         PendingConnections (snd res) = PendingConnections g \<and>
         PendingCount (snd res) = PendingCount g \<and>
         TotalConnections (snd res) = TotalConnections g"
proof -
  have "IsAppInList g (classify_processPath inMetaValues) = Some (blocked (AllowedApps g ! k))"
    using assms(4-6) by (rule IsAppInList_first_entry)
  then show ?thesis
    using assms(1-3,7) by (simp add: NetGuardClassifyFn_def Let_def block_action_def pending_def)
qed

lemma two_entries_fields:
  "Enabled other_then_blocked = 1" "unat (AllowedCount other_then_blocked) = 2"
  "AllowedApps other_then_blocked ! 0 =
     \<lparr>app_processPath = [0x79, 0x2E, 0x65, 0x78, 0x65] @ replicate 507 0, blocked = 0\<rparr>"
  "AllowedApps other_then_blocked ! 1 =
     \<lparr>app_processPath = [0x58, 0x2E, 0x45, 0x58, 0x45] @ replicate 507 0, blocked = 1\<rparr>"
  "BlockedConnections other_then_blocked = 0"
  "Enabled allowed_then_blocked = 1" "unat (AllowedCount allowed_then_blocked) = 2"
  "AllowedApps allowed_then_blocked ! 0 =
     \<lparr>app_processPath = [0x78, 0x2E, 0x65, 0x78, 0x65] @ replicate 507 0, blocked = 0\<rparr>"
  "AllowedApps allowed_then_blocked ! 1 =
     \<lparr>app_processPath = [0x58, 0x2E, 0x45, 0x58, 0x45] @ replicate 507 0, blocked = 1\<rparr>"
  "BlockedConnections allowed_then_blocked = 0" "AllowedConnections allowed_then_blocked = 0"
  using wchars_of_bytes_zeros [of 507]
  by (simp_all add: other_then_blocked_def allowed_then_blocked_def irp_enable_def
      irp_add_allowed_def X_EXE_def x_exe_def y_exe_def
      NetGuardDeviceControl_def Let_def g_Context_init_def TRUE_def sizeof_ALLOWED_APP_def
      MAX_ALLOWED_APPS_def MAX_PATH_LENGTH_def ALLOWED_APP_of_bytes_def nth_append)

lemma two_entries_compare:
  "wcsicmp (app_processPath (AllowedApps other_then_blocked ! 0))
     (classify_processPath (connect_meta pid)) \<noteq> 0"
  "wcsicmp (app_processPath (AllowedApps other_then_blocked ! 1))
     (classify_processPath (connect_meta pid)) = 0"
  "wcsicmp (app_processPath (AllowedApps allowed_then_blocked ! 0))
     (classify_processPath (connect_meta pid)) = 0"
  "wcsicmp (app_processPath (AllowedApps allowed_then_blocked ! 1))
     (classify_processPath (connect_meta pid)) = 0"
  unfolding two_entries_fields by (simp_all add: path_x_exe towlower_def wcsicmp_zeros)

lemma two_entries_blocked:
  "blocked (AllowedApps other_then_blocked ! 1) = 1"
  "blocked (AllowedApps allowed_then_blocked ! 0) = 0"
  "blocked (AllowedApps allowed_then_blocked ! 1) = 1"
  unfolding two_entries_fields by simp_all

theorem registry_first_match_decides_witness:
  "wcsicmp (app_processPath (AllowedApps other_then_blocked ! 0))
     (classify_processPath (connect_meta 100)) \<noteq> 0 \<and>
   wcsicmp (app_processPath (AllowedApps other_then_blocked ! 1))
     (classify_processPath (connect_meta 100)) = 0 \<and>
   blocked (AllowedApps other_then_blocked ! 1) = 1 \<and>
   NetGuardClassifyFn other_then_blocked connect_values (connect_meta 100) 7 connect_out =
     (\<lparr>actionType = FWP_ACTION_BLOCK, rights = 0\<rparr>,
      other_then_blocked\<lparr>BlockedConnections := 1\<rparr>)"
proof -
  have en: "Enabled other_then_blocked \<noteq> 0"
    by (simp add: two_entries_fields)
  have pid: "classify_processId (connect_meta 100) \<noteq> 0" "classify_processId (connect_meta 100) \<noteq> 4"
    by (simp_all add: pid_connect)
  have k: "1 < unat (AllowedCount other_then_blocked)"
    by (simp add: two_entries_fields)
  have first: "\<forall>j<1. wcsicmp (app_processPath (AllowedApps other_then_blocked ! j))
      (classify_processPath (connect_meta 100)) \<noteq> 0"
    using two_entries_compare(1) [of 100] by simp
  have "NetGuardClassifyFn other_then_blocked connect_values (connect_meta 100) 7 connect_out =
     (\<lparr>actionType = FWP_ACTION_BLOCK, rights = 0\<rparr>,
      other_then_blocked\<lparr>BlockedConnections := 1\<rparr>)"
    using registry_first_match_decides [OF en pid k two_entries_compare(2) first refl,
        where inFixedValues = connect_values and now = 7 and classifyOut = connect_out]
      two_entries_blocked(1)
    by (simp add: connect_out_def FWPS_RIGHT_ACTION_WRITE_def two_entries_fields(5))
  with two_entries_compare(1) [of 100] two_entries_compare(2) [of 100] two_entries_blocked(1)
  show ?thesis
    by (simp only: simp_thms)
qed

text \<open>
  The claim as stated lets any Block entry of the path decide. After \<^verbatim>\<open>x.exe\<close> is added
  as allowed and then \<^verbatim>\<open>X.EXE\<close> as blocked, the path of the attempt has a Block entry
  (the second), yet the attempt is permitted and counted as allowed: the first entry
  matches too and decides.
\<close>

theorem registry_block_entry_counterexample:
  "Enabled allowed_then_blocked \<noteq> 0 \<and>
   classify_processId (connect_meta 100) = 100 \<and>
   unat (AllowedCount allowed_then_blocked) = 2 \<and>
   wcsicmp (app_processPath (AllowedApps allowed_then_blocked ! 1))
     (classify_processPath (connect_meta 100)) = 0 \<and>
   blocked (AllowedApps allowed_then_blocked ! 1) = 1 \<and>
   NetGuardClassifyFn allowed_then_blocked connect_values (connect_meta 100) 7 connect_out =
     (\<lparr>actionType = FWP_ACTION_PERMIT, rights = 1\<rparr>,
      allowed_then_blocked\<lparr>AllowedConnections := 1\<rparr>) \<and>
   BlockedConnections (snd (NetGuardClassifyFn allowed_then_blocked connect_values
     (connect_meta 100) 7 connect_out)) = 0"
proof -
  have first: "\<forall>j<0. wcsicmp (app_processPath (AllowedApps allowed_then_blocked ! j))
      (classify_processPath (connect_meta 100)) \<noteq> 0"
    by simp
  have "0 < unat (AllowedCount allowed_then_blocked)"
    by (simp add: two_entries_fields)
  from IsAppInList_first_entry [OF this two_entries_compare(3) first]
  have lookup: "IsAppInList allowed_then_blocked (classify_processPath (connect_meta 100)) = Some 0"
    by (simp only: two_entries_blocked)
  have res: "NetGuardClassifyFn allowed_then_blocked connect_values (connect_meta 100) 7 connect_out =
     (\<lparr>actionType = FWP_ACTION_PERMIT, rights = 1\<rparr>,
      allowed_then_blocked\<lparr>AllowedConnections := 1\<rparr>)"
    by (simp add: NetGuardClassifyFn_def Let_def lookup pid_connect two_entries_fields(6,11)
        connect_out_def)
  have en: "Enabled allowed_then_blocked \<noteq> 0"
    by (simp add: two_entries_fields)
  have blocked: "BlockedConnections (snd (NetGuardClassifyFn allowed_then_blocked connect_values
      (connect_meta 100) 7 connect_out)) = 0"
    unfolding res by (simp add: two_entries_fields)
  from en pid_connect(1) two_entries_fields(7) two_entries_compare(4) [of 100]
    two_entries_blocked(3) res blocked
  show ?thesis
    by (simp only: simp_thms)
qed

section \<open>A full pending queue\<close>

text \<open>
  C1, as the code has it. While enforcement is enabled, a connection attempt whose path
  has no list entry and that finds all 256 slots pending is permitted, and the context
  is returned as it was: no counter is incremented, no pending connection is created and
  the queue still holds its 256 entries.
\<close>

theorem saturated_queue_permits:
  assumes "Enabled g \<noteq> 0"
    and "IsAppInList g (classify_processPath inMetaValues) = None"
    and "unat (PendingCount g) = MAX_PENDING_CONNECTIONS"
  shows "NetGuardClassifyFn g inFixedValues inMetaValues now classifyOut =
           (classifyOut\<lparr>actionType := FWP_ACTION_PERMIT\<rparr>, g)"
  using assms by (simp add: NetGuardClassifyFn_def Let_def AddPendingConnection_def)

lemma saturated_context_fields:
  "Enabled saturated_context \<noteq> 0"
  "unat (PendingCount saturated_context) = MAX_PENDING_CONNECTIONS"
  "IsAppInList saturated_context path = None"
  "BlockedConnections saturated_context = 0"
  by (simp_all add: saturated_context_def saturated_fields IsAppInList_empty)

lemma saturated_context_valid:
  "valid_context saturated_context \<and> length (pending saturated_context) = MAX_PENDING_CONNECTIONS"
proof -
  have "valid_context saturated_context"
    unfolding saturated_context_def by (rule valid_run [OF valid_context_init])
  then show ?thesis
    using length_pending [of saturated_context] saturated_context_fields(2) by simp
qed

theorem saturated_queue_permits_witness:
  "unat (PendingCount saturated_context) = MAX_PENDING_CONNECTIONS \<and>
   NetGuardClassifyFn saturated_context connect_values (connect_meta 200) 9 connect_out =
     (\<lparr>actionType = FWP_ACTION_PERMIT, rights = 1\<rparr>, saturated_context)"
  using saturated_queue_permits [OF saturated_context_fields(1) saturated_context_fields(3)
      saturated_context_fields(2), where inMetaValues = "connect_meta 200"
      and inFixedValues = connect_values and now = 9 and classifyOut = connect_out]
    saturated_context_fields(2)
  by (simp add: connect_out_def)

text \<open>
  The claim as stated asks for BLOCK and one more blocked connection. On the full queue
  above, the attempt of process 200 is not blocked and the counter stays at 0.
\<close>

theorem saturated_queue_block_counterexample:
  "valid_context saturated_context \<and>
   Enabled saturated_context \<noteq> 0 \<and>
   classify_processId (connect_meta 200) = 200 \<and>
   IsAppInList saturated_context (classify_processPath (connect_meta 200)) = None \<and>
   length (pending saturated_context) = MAX_PENDING_CONNECTIONS \<and>
   actionType (fst (NetGuardClassifyFn saturated_context connect_values (connect_meta 200) 9
     connect_out)) \<noteq> FWP_ACTION_BLOCK \<and>
   BlockedConnections (snd (NetGuardClassifyFn saturated_context connect_values (connect_meta 200) 9
     connect_out)) \<noteq> BlockedConnections saturated_context + 1"
  using saturated_context_valid
  by (simp add: saturated_context_fields NetGuardClassifyFn_def Let_def
      AddPendingConnection_def classify_processId_def connect_meta_def MAX_PENDING_CONNECTIONS_def)

section \<open>Connection ids\<close>

text \<open>
  C6. Over any run of the driver from \<^verbatim>\<open>DriverEntry\<close> on, whatever classifications and
  control requests it interleaves (full queues and removals included), the connection ids
  that the admissions return are strictly increasing, so none is returned twice. The run
  is one with fewer than \<open>2 ^ 64\<close> admissions: the id is a 64-bit counter.
\<close>

theorem id_monotonicity:
  assumes "length (admitted g_Context_init evs) < 2 ^ 64"
  shows "sorted_wrt (<) (admitted g_Context_init evs) \<and> distinct (admitted g_Context_init evs)"
proof -
  have sorted: "sorted_wrt (<) (admitted g_Context_init evs)"
    using sorted_ids [OF assms] admitted_init [of evs] by simp
  then show ?thesis
    by (simp add: strict_sorted_iff)
qed

lemmas eval_respond = irp_respond_def bytes_UINT64_def read_UINT64_def respond_from.simps
  respond_slot_def RtlMoveMemory_slots_def

lemma example_run_admitted: "admitted g_Context_init example_run = [1, 2, 3]"
  by (simp add: example_run_def eval_defs eval_respond)

theorem id_monotonicity_witness:
  "admitted g_Context_init example_run = [1, 2, 3] \<and>
   sorted_wrt (<) (admitted g_Context_init example_run) \<and>
   distinct (admitted g_Context_init example_run)"
proof -
  have "length (admitted g_Context_init example_run) < 2 ^ 64"
    by (simp add: example_run_admitted)
  from id_monotonicity [OF this] show ?thesis
    by (simp add: example_run_admitted)
qed

section \<open>Unknown applications\<close>

text \<open>
  C2. Take any context the driver has reached from \<^verbatim>\<open>DriverEntry\<close> by a run with fewer than
  \<open>2 ^ 64 - 1\<close> admissions. With enforcement enabled there, a connection attempt of a
  process other than 0 and 4 whose path has no list entry and that finds a free slot is
  blocked, and one pending connection is appended at the back of the queue. Its id is the
  counter plus one, the id this admission returns, and no admission of the run has
  returned it before. The entry carries the attempt's process id, address, port and time
  and is neither responded nor allowed.
\<close>

theorem default_block_unknown_app:
  assumes run: "g = run g_Context_init evs"
    and few: "length (admitted g_Context_init evs) < 2 ^ 64 - 1"
    and en: "Enabled g \<noteq> 0"
    and pid: "classify_processId inMetaValues \<noteq> 0" "classify_processId inMetaValues \<noteq> 4"
    and unknown: "IsAppInList g (classify_processPath inMetaValues) = None"
    and free: "unat (PendingCount g) < MAX_PENDING_CONNECTIONS"
    and res: "res = NetGuardClassifyFn g inFixedValues inMetaValues now classifyOut"
  shows "actionType (fst res) = FWP_ACTION_BLOCK \<and>
         (\<exists>c. pending (snd res) = pending g @ [c] \<and>
              connectionId c \<notin> set (admitted g_Context_init evs) \<and>
              admitted g_Context_init (evs @ [Classify inFixedValues inMetaValues now classifyOut]) =
                admitted g_Context_init evs @ [connectionId c] \<and>
              connectionId c = TotalConnections g + 1 \<and>
              processId c = classify_processId inMetaValues \<and>
              remoteIp c = IP_REMOTE_ADDRESS inFixedValues \<and>
              remotePort c = IP_REMOTE_PORT inFixedValues \<and>
              timestamp c = now \<and> responded c = FALSE \<and> allowed c = FALSE)"
proof -
  let ?n = "length (admitted g_Context_init evs)"
  let ?c = "(PendingConnections g ! unat (PendingCount g))
         \<lparr>connectionId := TotalConnections g + 1, processId := classify_processId inMetaValues,
          processPath := wcsncpy (processPath (PendingConnections g ! unat (PendingCount g)))
            (classify_processPath inMetaValues) (MAX_PATH_LENGTH - 1),
          remoteIp := IP_REMOTE_ADDRESS inFixedValues, remotePort := IP_REMOTE_PORT inFixedValues,
          timestamp := now, responded := FALSE, allowed := FALSE\<rparr>"
  have valid: "valid_context g"
    using run by (simp add: valid_run valid_context_init)
  have total: "TotalConnections g = of_nat ?n"
    using run by (simp add: TotalConnections_init_run)
  have next_id: "TotalConnections g + 1 = of_nat (Suc ?n)"
    using total by simp
  have nz: "TotalConnections g + 1 \<noteq> 0"
    unfolding next_id by (rule next_id_nonzero [OF few])
  have res': "res = (block_action (classifyOut\<lparr>actionType := FWP_ACTION_PERMIT\<rparr>),
      snd (AddPendingConnection g (classify_processId inMetaValues)
        (classify_processPath inMetaValues) (IP_REMOTE_ADDRESS inFixedValues)
        (IP_REMOTE_PORT inFixedValues) now))"
    using classify_admits [OF valid en pid unknown free] nz res
    by (simp add: word_greater_zero_iff)
  have pend: "pending (snd res) = pending g @ [?c]"
    using pending_AddPendingConnection [OF valid free] res' by simp
  have fresh: "connectionId ?c \<notin> set (admitted g_Context_init evs)"
    using fresh_id [OF few] admitted_init [of evs] next_id by (simp del: of_nat_Suc)
  have adm: "admission g (Classify inFixedValues inMetaValues now classifyOut) = Some (connectionId ?c)"
    using en pid unknown free by (simp add: AddPendingConnection_id)
  have log: "admitted g_Context_init (evs @ [Classify inFixedValues inMetaValues now classifyOut]) =
      admitted g_Context_init evs @ [connectionId ?c]"
    using adm run by (simp add: admitted_append)
  have block: "actionType (fst res) = FWP_ACTION_BLOCK"
    using res' by (simp add: block_action_def)
  have "pending (snd res) = pending g @ [?c] \<and>
      connectionId ?c \<notin> set (admitted g_Context_init evs) \<and>
      admitted g_Context_init (evs @ [Classify inFixedValues inMetaValues now classifyOut]) =
        admitted g_Context_init evs @ [connectionId ?c] \<and>
      connectionId ?c = TotalConnections g + 1 \<and>
      processId ?c = classify_processId inMetaValues \<and>
      remoteIp ?c = IP_REMOTE_ADDRESS inFixedValues \<and>
      remotePort ?c = IP_REMOTE_PORT inFixedValues \<and>
      timestamp ?c = now \<and> responded ?c = FALSE \<and> allowed ?c = FALSE"
    using pend fresh log by simp
  then show ?thesis
    using block by blast
qed

lemma three_pending_unknown: "IsAppInList three_pending path = None"
  by (simp add: IsAppInList_empty three_pending_fields)

theorem default_block_unknown_app_witness:
  "actionType (fst (NetGuardClassifyFn three_pending connect_values (connect_meta 103) 8
     connect_out)) = FWP_ACTION_BLOCK \<and>
   map connectionId (pending (snd (NetGuardClassifyFn three_pending connect_values
     (connect_meta 103) 8 connect_out))) = [1, 2, 3, 4] \<and>
   admitted g_Context_init [DeviceControl irp_enable, ev_connect 100, ev_connect 101, ev_connect 102]
     = [1, 2, 3]"
proof -
  let ?evs = "[DeviceControl irp_enable, ev_connect 100, ev_connect 101, ev_connect 102]"
  have few: "length (admitted g_Context_init ?evs) < 2 ^ 64 - 1"
    unfolding three_pending_admitted by simp
  have en: "Enabled three_pending \<noteq> 0"
    by (simp add: three_pending_fields)
  have pid: "classify_processId (connect_meta 103) \<noteq> 0" "classify_processId (connect_meta 103) \<noteq> 4"
    by (simp_all add: classify_processId_def connect_meta_def)
  have free: "unat (PendingCount three_pending) < MAX_PENDING_CONNECTIONS"
    by (simp add: three_pending_fields MAX_PENDING_CONNECTIONS_def)
  from default_block_unknown_app [OF three_pending_def few en pid three_pending_unknown free refl,
      where inFixedValues = connect_values and now = 8 and classifyOut = connect_out]
  obtain c where block: "actionType (fst (NetGuardClassifyFn three_pending connect_values
          (connect_meta 103) 8 connect_out)) = FWP_ACTION_BLOCK"
    and pend: "pending (snd (NetGuardClassifyFn three_pending connect_values
          (connect_meta 103) 8 connect_out)) = pending three_pending @ [c]"
    and c: "connectionId c = TotalConnections three_pending + 1"
    by blast
  have ids: "map connectionId (pending (snd (NetGuardClassifyFn three_pending connect_values
      (connect_meta 103) 8 connect_out))) = [1, 2, 3, 4]"
    by (simp add: pend c three_pending_ids three_pending_fields)
  from block ids three_pending_admitted show ?thesis
    by (simp only: simp_thms)
qed

section \<open>The total counter\<close>

lemma step_admitted:
  assumes valid: "valid_context g" and adm: "admission g ev = Some connId"
  shows "TotalConnections (step g ev) = TotalConnections g + 1 \<and>
         connId = TotalConnections (step g ev) \<and>
         (\<exists>c. pending (step g ev) = pending g @ [c] \<and>
              connectionId c = TotalConnections (step g ev))"
proof (cases ev)
  case (DeviceControl irp)
  then show ?thesis using adm by simp
next
  case (Classify inFixedValues inMetaValues now classifyOut)
  have free: "unat (PendingCount g) < MAX_PENDING_CONNECTIONS"
    using adm Classify by (simp split: if_splits)
  have "step g ev = snd (AddPendingConnection g (classify_processId inMetaValues)
      (classify_processPath inMetaValues) (IP_REMOTE_ADDRESS inFixedValues)
      (IP_REMOTE_PORT inFixedValues) now)"
    using adm Classify by (auto simp add: snd_NetGuardClassifyFn split: if_splits)
  then show ?thesis
    using admission_Some [OF adm] pending_AddPendingConnection [OF valid free]
    by simp
qed

lemma length_pending_NetGuardDeviceControl:
  assumes "valid_context g"
  shows "length (pending (snd (NetGuardDeviceControl g irp))) \<le> length (pending g)"
proof (cases "IoControlCode irp = IOCTL_NETGUARD_RESPOND")
  case True
  have "k < unat (PendingCount g) \<Longrightarrow>
        length (pending (respond_slot g a k)) \<le> length (pending g)" for a k
    using pending_respond_slot [OF assms] by simp
  then show ?thesis
    using True respond_from_result [of g "read_UINT64 (InputBuffer irp)" "InputBuffer irp ! 8" 0]
    by (auto simp add: NetGuardDeviceControl_def Let_def)
next
  case False
  then show ?thesis
    by (cases "IoControlCode irp") (simp_all add: NetGuardDeviceControl_def Let_def pending_def)
qed

lemma step_not_admitted:
  assumes valid: "valid_context g" and adm: "admission g ev = None"
  shows "TotalConnections (step g ev) = TotalConnections g \<and>
         length (pending (step g ev)) \<le> length (pending g)"
proof (cases ev)
  case (DeviceControl irp)
  then show ?thesis
    using length_pending_NetGuardDeviceControl [OF valid] admission_None [OF adm] by simp
next
  case (Classify inFixedValues inMetaValues now classifyOut)
  then have "length (pending (step g ev)) \<le> length (pending g)"
    using adm
    by (auto simp add: snd_NetGuardClassifyFn AddPendingConnection_full
        split: if_splits option.splits)
  then show ?thesis
    using admission_None [OF adm] by simp
qed

lemma last_admitted:
  assumes "admitted g_Context_init evs \<noteq> []"
  shows "last (admitted g_Context_init evs) = TotalConnections (run g_Context_init evs)"
proof -
  let ?n = "length (admitted g_Context_init evs)"
  have pos: "0 < ?n" using assms by simp
  have "last (admitted g_Context_init evs) =
      last (map (\<lambda>k. of_nat (Suc k) :: UINT64) [0..<?n])"
    using admitted_init [of evs] by simp
  also have "\<dots> = of_nat (Suc (?n - 1))"
    using pos by (simp add: last_map del: of_nat_Suc)
  also have "\<dots> = of_nat ?n"
    using pos by simp
  finally show ?thesis
    by (simp add: TotalConnections_init_run)
qed

text \<open>
  C10. Only an admission changes \<open>TotalConnections\<close>: an event that admits a pending
  connection adds exactly one, and the new value is the id returned and the id of the
  entry appended; every other event leaves the counter as it was and creates no entry.
  In particular a classification that is disabled, of process 0 or 4, decided by a list
  entry or made on a full queue leaves it unchanged, and so does every control request.
  So after any run from \<^verbatim>\<open>DriverEntry\<close> the counter is the number of admissions of the
  run (as a 64-bit number), and it is the id returned last.
\<close>

theorem total_connections_counts_admissions:
  assumes "valid_context g"
  shows "(case admission g ev of
            Some connId \<Rightarrow>
              TotalConnections (step g ev) = TotalConnections g + 1 \<and>
              connId = TotalConnections (step g ev) \<and>
              (\<exists>c. pending (step g ev) = pending g @ [c] \<and>
                   connectionId c = TotalConnections (step g ev))
          | None \<Rightarrow>
              TotalConnections (step g ev) = TotalConnections g \<and>
              length (pending (step g ev)) \<le> length (pending g)) \<and>
         (Enabled g = 0 \<or> classify_processId inMetaValues = 0 \<or>
          classify_processId inMetaValues = 4 \<or>
          IsAppInList g (classify_processPath inMetaValues) \<noteq> None \<or>
          \<not> unat (PendingCount g) < MAX_PENDING_CONNECTIONS \<longrightarrow>
            TotalConnections (snd (NetGuardClassifyFn g inFixedValues inMetaValues now classifyOut)) =
              TotalConnections g) \<and>
         TotalConnections (snd (NetGuardDeviceControl g irp)) = TotalConnections g \<and>
         TotalConnections (run g_Context_init evs) = of_nat (length (admitted g_Context_init evs)) \<and>
         unat (TotalConnections (run g_Context_init evs)) =
           length (admitted g_Context_init evs) mod 2 ^ 64 \<and>
         (admitted g_Context_init evs \<noteq> [] \<longrightarrow>
            last (admitted g_Context_init evs) = TotalConnections (run g_Context_init evs))"
proof -
  have one: "case admission g ev of
      Some connId \<Rightarrow>
        TotalConnections (step g ev) = TotalConnections g + 1 \<and>
        connId = TotalConnections (step g ev) \<and>
        (\<exists>c. pending (step g ev) = pending g @ [c] \<and>
             connectionId c = TotalConnections (step g ev))
    | None \<Rightarrow>
        TotalConnections (step g ev) = TotalConnections g \<and>
        length (pending (step g ev)) \<le> length (pending g)"
  proof (cases "admission g ev")
    case None
    show ?thesis
      unfolding None option.case by (rule step_not_admitted [OF assms None])
  next
    case (Some connId)
    show ?thesis
      unfolding Some option.case by (rule step_admitted [OF assms Some])
  qed
  have other: "TotalConnections (snd (NetGuardClassifyFn g inFixedValues inMetaValues now classifyOut)) =
      TotalConnections g"
    if "Enabled g = 0 \<or> classify_processId inMetaValues = 0 \<or>
        classify_processId inMetaValues = 4 \<or>
        IsAppInList g (classify_processPath inMetaValues) \<noteq> None \<or>
        \<not> unat (PendingCount g) < MAX_PENDING_CONNECTIONS"
  proof -
    have "admission g (Classify inFixedValues inMetaValues now classifyOut) = None"
      using that by auto
    from admission_None [OF this] show ?thesis by simp
  qed
  have count: "unat (TotalConnections (run g_Context_init evs)) =
      length (admitted g_Context_init evs) mod 2 ^ 64"
    by (simp add: TotalConnections_init_run unat_of_nat)
  show ?thesis
    using one other count last_admitted [of evs]
    by (simp add: TotalConnections_NetGuardDeviceControl TotalConnections_init_run)
qed

theorem total_connections_counts_admissions_witness:
  "admission three_pending (ev_connect 103) = Some 4 \<and>
   TotalConnections (step three_pending (ev_connect 103)) = 4 \<and>
   map connectionId (pending (step three_pending (ev_connect 103))) = [1, 2, 3, 4] \<and>
   TotalConnections (snd (NetGuardClassifyFn three_pending connect_values (connect_meta 4) 8
     connect_out)) = 3 \<and>
   TotalConnections (snd (NetGuardDeviceControl three_pending (irp_respond 2 1))) = 3 \<and>
   admitted g_Context_init example_run = [1, 2, 3] \<and>
   TotalConnections (run g_Context_init example_run) = 3"
proof -
  have adm: "admission three_pending (ev_connect 103) = Some 4"
    by (simp add: ev_connect_def three_pending_fields three_pending_unknown classify_processId_def
        connect_meta_def MAX_PENDING_CONNECTIONS_def AddPendingConnection_id)
  have sys: "classify_processId (connect_meta 4) = 4"
    by (simp add: classify_processId_def connect_meta_def)
  note facts = total_connections_counts_admissions [OF three_pending_valid, of "ev_connect 103"
      "connect_meta 4" connect_values 8 connect_out "irp_respond 2 1" example_run]
  from facts adm obtain c where total: "TotalConnections (step three_pending (ev_connect 103)) = 4"
    and pend: "pending (step three_pending (ev_connect 103)) = pending three_pending @ [c]"
    and c: "connectionId c = 4"
    by (auto simp add: three_pending_fields)
  from facts sys have others:
    "TotalConnections (snd (NetGuardClassifyFn three_pending connect_values (connect_meta 4) 8
       connect_out)) = 3"
    "TotalConnections (snd (NetGuardDeviceControl three_pending (irp_respond 2 1))) = 3"
    "TotalConnections (run g_Context_init example_run) = 3"
    by (simp_all add: three_pending_fields example_run_admitted)
  show ?thesis
    by (simp add: adm total pend c others three_pending_ids example_run_admitted)
qed

section \<open>Listing the pending queue\<close>

lemma three_pending_nth:
  "length (pending three_pending) = 3"
  "connectionId (pending three_pending ! 0) = 1"
  "connectionId (pending three_pending ! 1) = 2"
  "connectionId (pending three_pending ! 2) = 3"
proof -
  show len: "length (pending three_pending) = 3"
    using arg_cong [OF three_pending_ids, of length] by simp
  have "map connectionId (pending three_pending) ! k = connectionId (pending three_pending ! k)"
    if "k < 3" for k
    using that len by simp
  from this [of 0] this [of 1] this [of 2]
  show "connectionId (pending three_pending ! 0) = 1"
    "connectionId (pending three_pending ! 1) = 2"
    "connectionId (pending three_pending ! 2) = 3"
    by (simp_all add: three_pending_ids)
qed

text \<open>
  C4, as the code has it. A list request never changes the context and succeeds. It
  returns the first \<open>min budget (count * 1064)\<close> bytes of the pending queue's records
  laid end to end, oldest first: each record that fits whole is there in queue order, and
  when the budget is not a multiple of the record size and smaller than the whole, the
  data ends with the leading bytes of the next record.
\<close>

theorem get_pending_truncates_bytes:
  assumes "valid_context g"
    and "IoControlCode irp = IOCTL_NETGUARD_GET_PENDING"
    and "res = NetGuardDeviceControl g irp"
  shows "snd res = g \<and>
         Status (fst res) = STATUS_SUCCESS \<and>
         Information (fst res) =
           min (unat (OutputBufferLength irp)) (length (pending g) * sizeof_PENDING_CONNECTION) \<and>
         OutputData (fst res) =
           take (unat (OutputBufferLength irp)) (concat (map bytes_PENDING_CONNECTION (pending g))) \<and>
         length (OutputData (fst res)) = Information (fst res) \<and>
         (\<forall>k < Information (fst res) div sizeof_PENDING_CONNECTION.
            take sizeof_PENDING_CONNECTION (drop (k * sizeof_PENDING_CONNECTION) (OutputData (fst res))) =
              bytes_PENDING_CONNECTION (pending g ! k))"
  using assms by (rule get_pending_result)

theorem get_pending_truncates_bytes_witness:
  "snd (NetGuardDeviceControl three_pending (irp_get_pending 2500)) = three_pending \<and>
   Information (fst (NetGuardDeviceControl three_pending (irp_get_pending 2500))) = 2500 \<and>
   length (OutputData (fst (NetGuardDeviceControl three_pending (irp_get_pending 2500)))) = 2500 \<and>
   take 1064 (drop 1064 (OutputData (fst (NetGuardDeviceControl three_pending (irp_get_pending 2500)))))
     = bytes_PENDING_CONNECTION (pending three_pending ! 1)"
proof -
  have code: "IoControlCode (irp_get_pending 2500) = IOCTL_NETGUARD_GET_PENDING"
    by (simp add: irp_get_pending_def)
  have len: "unat (OutputBufferLength (irp_get_pending 2500)) = 2500"
    by (simp add: irp_get_pending_def)
  let ?res = "NetGuardDeviceControl three_pending (irp_get_pending 2500)"
  note facts = get_pending_truncates_bytes [OF three_pending_valid code refl]
  from facts have same: "snd ?res = three_pending"
    and info: "Information (fst ?res) =
      min (unat (OutputBufferLength (irp_get_pending 2500)))
        (length (pending three_pending) * sizeof_PENDING_CONNECTION)"
    and count: "length (OutputData (fst ?res)) = Information (fst ?res)"
    and chunks: "\<forall>k < Information (fst ?res) div sizeof_PENDING_CONNECTION.
      take sizeof_PENDING_CONNECTION (drop (k * sizeof_PENDING_CONNECTION) (OutputData (fst ?res))) =
        bytes_PENDING_CONNECTION (pending three_pending ! k)"
    by blast+
  have info': "Information (fst ?res) = 2500"
    unfolding info by (simp add: len three_pending_nth sizeof_PENDING_CONNECTION_def)
  have "1 < Information (fst ?res) div sizeof_PENDING_CONNECTION"
    unfolding info' by (simp add: sizeof_PENDING_CONNECTION_def)
  with chunks have "take sizeof_PENDING_CONNECTION
      (drop (1 * sizeof_PENDING_CONNECTION) (OutputData (fst ?res))) =
      bytes_PENDING_CONNECTION (pending three_pending ! 1)"
    by blast
  then have "take 1064 (drop 1064 (OutputData (fst ?res))) =
      bytes_PENDING_CONNECTION (pending three_pending ! 1)"
    by (simp add: sizeof_PENDING_CONNECTION_def)
  with same info' count show ?thesis
    by (simp only: simp_thms)
qed

text \<open>
  The claim as stated allows whole records only. With three connections pending and a
  budget of 100 bytes no record fits, yet 100 bytes are returned: the start of the first
  record.
\<close>

theorem get_pending_partial_record_counterexample:
  "length (pending three_pending) = 3 \<and>
   unat (OutputBufferLength (irp_get_pending 100)) = 100 \<and>
   Information (fst (NetGuardDeviceControl three_pending (irp_get_pending 100))) = 100 \<and>
   length (OutputData (fst (NetGuardDeviceControl three_pending (irp_get_pending 100)))) = 100 \<and>
   length (OutputData (fst (NetGuardDeviceControl three_pending (irp_get_pending 100))))
     mod sizeof_PENDING_CONNECTION = 100"
proof -
  have code: "IoControlCode (irp_get_pending 100) = IOCTL_NETGUARD_GET_PENDING"
    by (simp add: irp_get_pending_def)
  have len: "unat (OutputBufferLength (irp_get_pending 100)) = 100"
    by (simp add: irp_get_pending_def)
  let ?res = "NetGuardDeviceControl three_pending (irp_get_pending 100)"
  note facts = get_pending_result [OF three_pending_valid code refl]
  from facts have info: "Information (fst ?res) =
      min (unat (OutputBufferLength (irp_get_pending 100)))
        (length (pending three_pending) * sizeof_PENDING_CONNECTION)"
    and count: "length (OutputData (fst ?res)) = Information (fst ?res)"
    by blast+
  have info': "Information (fst ?res) = 100"
    unfolding info by (simp add: len three_pending_nth sizeof_PENDING_CONNECTION_def)
  have "length (OutputData (fst ?res)) mod sizeof_PENDING_CONNECTION = 100"
    unfolding count info' by (simp add: sizeof_PENDING_CONNECTION_def)
  with three_pending_nth(1) len info' count show ?thesis
    by (simp only: simp_thms)
qed

section \<open>Responding\<close>

text \<open>
  C7. In any well-formed context, a respond request for an id whose first holder is the
  entry at position \<open>k\<close> of the pending queue (in the middle or anywhere else) removes
  exactly that entry: the queue afterwards is the entries before it followed by the
  entries after it, in their old order. A list request made next returns the bytes of
  those entries in that order and leaves them in place.
\<close>

theorem resolve_preserves_order:
  assumes valid: "valid_context g"
    and k: "k < length (pending g)"
    and match: "connectionId (pending g ! k) = connId"
    and first: "\<forall>j<k. connectionId (pending g ! j) \<noteq> connId"
    and irp: "IoControlCode irp = IOCTL_NETGUARD_RESPOND" "9 \<le> length (InputBuffer irp)"
      "read_UINT64 (InputBuffer irp) = connId"
    and list: "IoControlCode list = IOCTL_NETGUARD_GET_PENDING"
    and g': "g' = snd (NetGuardDeviceControl g irp)"
  shows "pending g' = take k (pending g) @ drop (Suc k) (pending g) \<and>
         length (pending g') = length (pending g) - 1 \<and>
         OutputData (fst (NetGuardDeviceControl g' list)) =
           take (unat (OutputBufferLength list))
             (concat (map bytes_PENDING_CONNECTION (take k (pending g) @ drop (Suc k) (pending g)))) \<and>
         snd (NetGuardDeviceControl g' list) = g'"
proof -
  have kc: "k < unat (PendingCount g)"
    using k length_pending [OF valid] by simp
  have slot: "g' = respond_slot g (InputBuffer irp ! 8) k"
    using respond_found [OF valid k match first irp] g' by simp
  have valid': "valid_context g'"
    using slot valid_respond_slot [OF valid kc] by simp
  have pend: "pending g' = take k (pending g) @ drop (Suc k) (pending g)"
    using slot pending_respond_slot [OF valid kc] by simp
  have "length (pending g') = length (pending g) - 1"
    using pend k by simp
  then show ?thesis
    using get_pending_result [OF valid' list refl] pend by simp
qed

theorem resolve_preserves_order_witness:
  "map connectionId (pending three_pending) = [1, 2, 3] \<and>
   map connectionId (pending (snd (NetGuardDeviceControl three_pending (irp_respond 2 1)))) = [1, 3] \<and>
   OutputData (fst (NetGuardDeviceControl (snd (NetGuardDeviceControl three_pending (irp_respond 2 1)))
     (irp_get_pending 4096))) =
     take 4096 (concat (map bytes_PENDING_CONNECTION
       (pending (snd (NetGuardDeviceControl three_pending (irp_respond 2 1))))))"
proof -
  have k: "1 < length (pending three_pending)"
    by (simp add: three_pending_nth)
  have first: "\<forall>j<1. connectionId (pending three_pending ! j) \<noteq> 2"
    by (simp add: three_pending_nth)
  have irp: "IoControlCode (irp_respond 2 1) = IOCTL_NETGUARD_RESPOND"
    "9 \<le> length (InputBuffer (irp_respond 2 1))"
    by (simp_all add: irp_respond_def bytes_UINT64_def)
  have list: "IoControlCode (irp_get_pending 4096) = IOCTL_NETGUARD_GET_PENDING"
    "unat (OutputBufferLength (irp_get_pending 4096)) = 4096"
    by (simp_all add: irp_get_pending_def)
  note facts = resolve_preserves_order [OF three_pending_valid k three_pending_nth(3) first irp
      read_irp_respond list(1) refl]
  from facts have pend: "pending (snd (NetGuardDeviceControl three_pending (irp_respond 2 1))) =
      take 1 (pending three_pending) @ drop (Suc 1) (pending three_pending)"
    by blast
  have "map connectionId (pending (snd (NetGuardDeviceControl three_pending (irp_respond 2 1)))) =
      take 1 (map connectionId (pending three_pending)) @
      drop (Suc 1) (map connectionId (pending three_pending))"
    unfolding pend by (simp add: take_map drop_map)
  then have ids: "map connectionId (pending (snd (NetGuardDeviceControl three_pending
      (irp_respond 2 1)))) = [1, 3]"
    by (simp add: three_pending_ids)
  from facts have "OutputData (fst (NetGuardDeviceControl
      (snd (NetGuardDeviceControl three_pending (irp_respond 2 1))) (irp_get_pending 4096))) =
      take (unat (OutputBufferLength (irp_get_pending 4096)))
        (concat (map bytes_PENDING_CONNECTION
          (take 1 (pending three_pending) @ drop (Suc 1) (pending three_pending))))"
    by blast
  then have "OutputData (fst (NetGuardDeviceControl
      (snd (NetGuardDeviceControl three_pending (irp_respond 2 1))) (irp_get_pending 4096))) =
      take 4096 (concat (map bytes_PENDING_CONNECTION
        (pending (snd (NetGuardDeviceControl three_pending (irp_respond 2 1))))))"
    by (simp only: pend list)
  with ids three_pending_ids show ?thesis
    by (simp only: simp_thms)
qed

lemma three_pending_last:
  "last (pending three_pending) = pending three_pending ! 2"
  "connectionId (last (pending three_pending)) = 3"
  "responded (last (pending three_pending)) = 0"
proof -
  have ne: "pending three_pending \<noteq> []"
    using three_pending_nth(1) by auto
  show last: "last (pending three_pending) = pending three_pending ! 2"
    using last_conv_nth [OF ne] three_pending_nth(1) by simp
  show "connectionId (last (pending three_pending)) = 3"
    unfolding last by (rule three_pending_nth(4))
  have "map responded (pending three_pending) ! 2 = responded (pending three_pending ! 2)"
    using three_pending_nth(1) by simp
  then show "responded (last (pending three_pending)) = 0"
    unfolding last by (simp add: three_pending_marks)
qed

text \<open>
  C5, as the code has it. Take any context the driver has reached from \<^verbatim>\<open>DriverEntry\<close> by
  a run with fewer than \<open>2 ^ 64\<close> admissions, and respond twice to the same id. Both
  calls return success and no data: the driver does not tell a found id from an unknown
  one. If the id is pending, the first call removes its entry: the other entries stay,
  in their order, and the count drops by one. The mark (responded, and allowed as the
  request says) is written to the entry's slot before the gap is closed, so it is kept
  only when the entry was the last of the queue, in the slot just behind the queue that
  no request reads; otherwise that slot keeps the old last entry as it was and no slot
  is marked. Nothing else in the context changes. If the id is not pending the first
  call changes nothing. The second call changes nothing in either case.
\<close>

theorem respond_twice_same_status:
  assumes run: "g = run g_Context_init evs"
    and few: "length (admitted g_Context_init evs) < 2 ^ 64"
    and irp: "IoControlCode irp = IOCTL_NETGUARD_RESPOND" "9 \<le> length (InputBuffer irp)"
      "read_UINT64 (InputBuffer irp) = connId"
    and r1: "first = NetGuardDeviceControl g irp"
    and r2: "second = NetGuardDeviceControl (snd first) irp"
  shows "fst first = \<lparr>Status = STATUS_SUCCESS, Information = 0, OutputData = []\<rparr> \<and>
         fst second = \<lparr>Status = STATUS_SUCCESS, Information = 0, OutputData = []\<rparr> \<and>
         snd second = snd first \<and>
         (if connId \<in> set (map connectionId (pending g))
          then pending (snd first) = filter (\<lambda>c. connectionId c \<noteq> connId) (pending g) \<and>
               length (pending (snd first)) = length (pending g) - 1 \<and>
               PendingCount (snd first) = PendingCount g - 1 \<and>
               snd first =
                 g\<lparr>PendingConnections :=
                     filter (\<lambda>c. connectionId c \<noteq> connId) (pending g) @
                     [if connectionId (last (pending g)) = connId
                      then (last (pending g))\<lparr>responded := TRUE, allowed := InputBuffer irp ! 8\<rparr>
                      else last (pending g)] @
                     drop (unat (PendingCount g)) (PendingConnections g),
                   PendingCount := PendingCount g - 1\<rparr>
          else snd first = g)"
proof (cases "connId \<in> set (map connectionId (pending g))")
  case False
  have valid: "valid_context g"
    using run by (simp add: valid_run valid_context_init)
  have unknown: "\<forall>c\<in>set (pending g). connectionId c \<noteq> connId"
    using False by auto
  have "first = (\<lparr>Status = STATUS_SUCCESS, Information = 0, OutputData = []\<rparr>, g)"
    using respond_unknown [OF valid unknown irp] r1 by simp
  moreover from this have "second = (\<lparr>Status = STATUS_SUCCESS, Information = 0, OutputData = []\<rparr>, g)"
    using respond_unknown [OF valid unknown irp] r2 by simp
  ultimately show ?thesis
    using False by simp
next
  case True
  let ?n = "unat (PendingCount g)"
  let ?a = "InputBuffer irp ! 8"
  have valid: "valid_context g"
    using run by (simp add: valid_run valid_context_init)
  have len: "length (pending g) = ?n"
    by (rule length_pending [OF valid])
  have dist: "distinct (map connectionId (pending g))"
    using reachable_ids_distinct [OF few] run by simp
  from True obtain k where k: "k < length (pending g)"
    and match: "connectionId (pending g ! k) = connId"
    by (auto simp add: in_set_conv_nth)
  have kc: "k < ?n" using k len by simp
  have once: "\<forall>j<length (pending g). j \<noteq> k \<longrightarrow> connectionId (pending g ! j) \<noteq> connId"
  proof (intro allI impI)
    fix j assume j: "j < length (pending g)" "j \<noteq> k"
    then have "map connectionId (pending g) ! j \<noteq> map connectionId (pending g) ! k"
      using nth_eq_iff_index_eq [OF dist, of j k] k by simp
    then show "connectionId (pending g ! j) \<noteq> connId"
      using j k match by simp
  qed
  have before: "\<forall>j<k. connectionId (pending g ! j) \<noteq> connId"
    using once k by simp
  note twice = respond_twice [OF valid k match once irp r1 r2]
  have removed: "filter (\<lambda>c. connectionId c \<noteq> connId) (pending g) =
      take k (pending g) @ drop (Suc k) (pending g)"
    using filter_remove_nth [OF dist k] match by simp
  have shorter: "length (take k (pending g) @ drop (Suc k) (pending g)) = length (pending g) - 1"
    using k by simp
  have "pending g \<noteq> []"
    using k by auto
  then have lastn: "last (pending g) = pending g ! (?n - 1)"
    using len by (simp add: last_conv_nth)
  have is_last: "connectionId (last (pending g)) = connId \<longleftrightarrow> k = ?n - 1"
  proof
    assume "connectionId (last (pending g)) = connId"
    then show "k = ?n - 1"
      using once lastn k len by (metis diff_less less_nat_zero_code not_gr_zero zero_less_one)
  next
    assume "k = ?n - 1"
    then show "connectionId (last (pending g)) = connId"
      using lastn match by simp
  qed
  have slot: "(if k = ?n - 1 then (pending g ! k)\<lparr>responded := TRUE, allowed := ?a\<rparr>
               else last (pending g)) =
      (if connectionId (last (pending g)) = connId
       then (last (pending g))\<lparr>responded := TRUE, allowed := ?a\<rparr>
       else last (pending g))"
    using is_last lastn by auto
  have "snd first = respond_slot g ?a k"
    using respond_found [OF valid k match before irp] r1 by simp
  then have "snd first =
      g\<lparr>PendingConnections := PendingConnections (respond_slot g ?a k),
        PendingCount := PendingCount g - 1\<rparr>"
    using context_respond_slot [of g ?a k] by simp
  then have state: "snd first =
      g\<lparr>PendingConnections :=
          filter (\<lambda>c. connectionId c \<noteq> connId) (pending g) @
          [if connectionId (last (pending g)) = connId
           then (last (pending g))\<lparr>responded := TRUE, allowed := ?a\<rparr>
           else last (pending g)] @
          drop ?n (PendingConnections g),
        PendingCount := PendingCount g - 1\<rparr>"
    unfolding array_respond_slot [OF valid kc] slot removed by simp
  from twice have parts:
    "fst first = \<lparr>Status = STATUS_SUCCESS, Information = 0, OutputData = []\<rparr>"
    "pending (snd first) = take k (pending g) @ drop (Suc k) (pending g)"
    "PendingCount (snd first) = PendingCount g - 1"
    "fst second = \<lparr>Status = STATUS_SUCCESS, Information = 0, OutputData = []\<rparr>"
    "snd second = snd first"
    by blast+
  have "pending (snd first) = filter (\<lambda>c. connectionId c \<noteq> connId) (pending g)"
    using parts(2) removed by simp
  moreover have "length (pending (snd first)) = length (pending g) - 1"
    using parts(2) shorter by simp
  ultimately show ?thesis
    using parts(1,3,4,5) state True by (simp only: if_True simp_thms)
qed

theorem respond_twice_same_status_witness:
  "fst (NetGuardDeviceControl three_pending (irp_respond 3 1)) =
     \<lparr>Status = STATUS_SUCCESS, Information = 0, OutputData = []\<rparr> \<and>
   map connectionId (pending (snd (NetGuardDeviceControl three_pending (irp_respond 3 1)))) = [1, 2] \<and>
   connectionId (PendingConnections (snd (NetGuardDeviceControl three_pending (irp_respond 3 1))) ! 2) = 3 \<and>
   responded (PendingConnections (snd (NetGuardDeviceControl three_pending (irp_respond 3 1))) ! 2) = TRUE \<and>
   allowed (PendingConnections (snd (NetGuardDeviceControl three_pending (irp_respond 3 1))) ! 2) = 1 \<and>
   NetGuardDeviceControl (snd (NetGuardDeviceControl three_pending (irp_respond 3 1))) (irp_respond 3 1) =
     (\<lparr>Status = STATUS_SUCCESS, Information = 0, OutputData = []\<rparr>,
      snd (NetGuardDeviceControl three_pending (irp_respond 3 1))) \<and>
   map connectionId (pending (snd (NetGuardDeviceControl three_pending (irp_respond 2 1)))) = [1, 3] \<and>
   connectionId (PendingConnections (snd (NetGuardDeviceControl three_pending (irp_respond 2 1))) ! 2) = 3 \<and>
   responded (PendingConnections (snd (NetGuardDeviceControl three_pending (irp_respond 2 1))) ! 2) = 0"
proof -
  let ?evs = "[DeviceControl irp_enable, ev_connect 100, ev_connect 101, ev_connect 102]"
  let ?g3 = "snd (NetGuardDeviceControl three_pending (irp_respond 3 1))"
  let ?g2 = "snd (NetGuardDeviceControl three_pending (irp_respond 2 1))"
  have few: "length (admitted g_Context_init ?evs) < 2 ^ 64"
    unfolding three_pending_admitted by simp
  have irp: "IoControlCode (irp_respond c 1) = IOCTL_NETGUARD_RESPOND"
    "9 \<le> length (InputBuffer (irp_respond c 1))" "InputBuffer (irp_respond c 1) ! 8 = 1" for c
    by (simp_all add: irp_respond_def bytes_UINT64_def)
  have in3: "3 \<in> set (map connectionId (pending three_pending))"
    and in2: "2 \<in> set (map connectionId (pending three_pending))"
    by (simp_all add: three_pending_ids)
  note last = respond_twice_same_status [OF three_pending_def few irp(1,2) read_irp_respond_id
      refl refl, of 3]
  note mid = respond_twice_same_status [OF three_pending_def few irp(1,2) read_irp_respond_id
      refl refl, of 2]
  note last_if = last [THEN conjunct2, THEN conjunct2, THEN conjunct2, unfolded if_P [OF in3]]
  note mid_if = mid [THEN conjunct2, THEN conjunct2, THEN conjunct2, unfolded if_P [OF in2]]
  note l = last [THEN conjunct1] last [THEN conjunct2, THEN conjunct1]
    last [THEN conjunct2, THEN conjunct2, THEN conjunct1]
    last_if [THEN conjunct1] last_if [THEN conjunct2, THEN conjunct1]
  note m = mid_if [THEN conjunct1] mid_if [THEN conjunct2, THEN conjunct1]
  have array3: "PendingConnections ?g3 =
       filter (\<lambda>c. connectionId c \<noteq> 3) (pending three_pending) @
       [(last (pending three_pending))\<lparr>responded := TRUE, allowed := 1\<rparr>] @
       drop (unat (PendingCount three_pending)) (PendingConnections three_pending)"
    using arg_cong [OF last_if [THEN conjunct2, THEN conjunct2, THEN conjunct2], of PendingConnections]
    by (simp add: irp(3) three_pending_last(2))
  have array2: "PendingConnections ?g2 =
       filter (\<lambda>c. connectionId c \<noteq> 2) (pending three_pending) @
       [last (pending three_pending)] @
       drop (unat (PendingCount three_pending)) (PendingConnections three_pending)"
    using arg_cong [OF mid_if [THEN conjunct2, THEN conjunct2, THEN conjunct2], of PendingConnections]
    by (simp add: irp(3) three_pending_last(2))
  have len3: "length (filter (\<lambda>c. connectionId c \<noteq> 3) (pending three_pending)) = 2"
    using l(4,5) three_pending_nth(1) by simp
  have len2: "length (filter (\<lambda>c. connectionId c \<noteq> 2) (pending three_pending)) = 2"
    using m(1,2) three_pending_nth(1) by simp
  have slot3: "PendingConnections ?g3 ! 2 = (last (pending three_pending))\<lparr>responded := TRUE, allowed := 1\<rparr>"
    unfolding array3 using nth_append_length [of "filter (\<lambda>c. connectionId c \<noteq> 3) (pending three_pending)"]
    by (simp add: len3)
  have slot2: "PendingConnections ?g2 ! 2 = last (pending three_pending)"
    unfolding array2 using nth_append_length [of "filter (\<lambda>c. connectionId c \<noteq> 2) (pending three_pending)"]
    by (simp add: len2)
  have "map connectionId (pending ?g3) = filter (\<lambda>i. i \<noteq> 3) (map connectionId (pending three_pending))"
    unfolding l(4) by (simp add: filter_map comp_def)
  then have ids3: "map connectionId (pending ?g3) = [1, 2]"
    by (simp add: three_pending_ids)
  have "map connectionId (pending ?g2) = filter (\<lambda>i. i \<noteq> 2) (map connectionId (pending three_pending))"
    unfolding m(1) by (simp add: filter_map comp_def)
  then have ids2: "map connectionId (pending ?g2) = [1, 3]"
    by (simp add: three_pending_ids)
  have again: "NetGuardDeviceControl ?g3 (irp_respond 3 1) =
      (\<lparr>Status = STATUS_SUCCESS, Information = 0, OutputData = []\<rparr>, ?g3)"
    using l(2,3) by (simp add: prod_eq_iff)
  have marked: "connectionId (PendingConnections ?g3 ! 2) = 3"
    "responded (PendingConnections ?g3 ! 2) = TRUE" "allowed (PendingConnections ?g3 ! 2) = 1"
    unfolding slot3 by (simp_all add: three_pending_last(2))
  have unmarked: "connectionId (PendingConnections ?g2 ! 2) = 3"
    "responded (PendingConnections ?g2 ! 2) = 0"
    unfolding slot2 by (rule three_pending_last(2), rule three_pending_last(3))
  from l(1) ids3 marked again ids2 unmarked show ?thesis
    by (simp only: simp_thms)
qed

text \<open>
  The claim as stated tells the two calls apart by what they yield. With id 2 pending
  among three, the first call removes it, the second finds nothing, and the second call
  yields exactly what the first did.
\<close>

theorem respond_not_found_counterexample:
  "2 \<in> set (map connectionId (pending three_pending)) \<and>
   2 \<notin> set (map connectionId (pending (snd (NetGuardDeviceControl three_pending (irp_respond 2 1))))) \<and>
   fst (NetGuardDeviceControl (snd (NetGuardDeviceControl three_pending (irp_respond 2 1)))
     (irp_respond 2 1)) =
   fst (NetGuardDeviceControl three_pending (irp_respond 2 1))"
proof -
  have k: "1 < length (pending three_pending)"
    by (simp add: three_pending_nth)
  have once: "\<forall>j<length (pending three_pending). j \<noteq> 1 \<longrightarrow>
      connectionId (pending three_pending ! j) \<noteq> 2"
  proof (intro allI impI)
    fix j :: nat assume "j < length (pending three_pending)" "j \<noteq> 1"
    then have "j = 0 \<or> j = 2"
      by (auto simp add: three_pending_nth)
    then show "connectionId (pending three_pending ! j) \<noteq> 2"
      by (auto simp add: three_pending_nth)
  qed
  have irp: "IoControlCode (irp_respond 2 1) = IOCTL_NETGUARD_RESPOND"
    "9 \<le> length (InputBuffer (irp_respond 2 1))"
    by (simp_all add: irp_respond_def bytes_UINT64_def)
  note twice = respond_twice [OF three_pending_valid k three_pending_nth(3) once irp
      read_irp_respond refl refl]
  from twice have pend: "pending (snd (NetGuardDeviceControl three_pending (irp_respond 2 1))) =
      take 1 (pending three_pending) @ drop (Suc 1) (pending three_pending)"
    by blast
  have "map connectionId (pending (snd (NetGuardDeviceControl three_pending (irp_respond 2 1)))) =
      take 1 (map connectionId (pending three_pending)) @
      drop (Suc 1) (map connectionId (pending three_pending))"
    unfolding pend by (simp add: take_map drop_map)
  then have ids: "map connectionId (pending (snd (NetGuardDeviceControl three_pending
      (irp_respond 2 1)))) = [1, 3]"
    by (simp add: three_pending_ids)
  from twice have "fst (NetGuardDeviceControl (snd (NetGuardDeviceControl three_pending
      (irp_respond 2 1))) (irp_respond 2 1)) = fst (NetGuardDeviceControl three_pending (irp_respond 2 1))"
    by simp
  then show ?thesis
    by (simp add: ids three_pending_ids)
qed

end
